theory Spec2Isabelle
  imports Complex_Main "HOL-Library.Word"
begin

unbundle bit_operations_syntax

section \<open>Constants and machine types (sa.h)\<close>

type_synonym u8 = "8 word"
type_synonym i8 = "8 word"
type_synonym i32 = "32 word"

definition PE_ROWS :: nat where "PE_ROWS = 16"
definition PE_COLS :: nat where "PE_COLS = 16"
definition GROUP_SIZE :: nat where "GROUP_SIZE = 16"
definition M_DIM :: nat where "M_DIM = 128"
definition K_DIM :: nat where "K_DIM = 4096"
definition N_DIM :: nat where "N_DIM = 512"

text \<open>
  The static caches of sa.cpp are declared \<open>A_cache[8][PE_ROWS][K_DIM]\<close> and
  \<open>W_cache[32][PE_COLS][K_DIM]\<close>; the two literals are named here.
\<close>

definition A_TILES :: nat where "A_TILES = 8"
definition W_TILES :: nat where "W_TILES = 32"

section \<open>The dequantization primitive (sa.h, unpack_dequantize_weight)\<close>

text \<open>
  \<open>int8_t\<close> and \<open>uint8_t\<close> are both 8-bit words; \<open>sint\<close> reads the signed value and
  \<open>unat\<close> the unsigned one. The nibble is extracted and sign-extended on 8 bits (the
  values involved fit, so the promotion to \<open>int\<close> changes nothing there). The final
  \<open>w_4bit << shift_amount\<close> is computed in \<open>int\<close> after integer promotion and then
  converted to the \<open>int8_t\<close> return type: that is \<open>word_of_int\<close> of the shifted
  signed value.
\<close>

definition unpack_dequantize_weight :: "u8 \<Rightarrow> bool \<Rightarrow> u8 \<Rightarrow> i8" where
  "unpack_dequantize_weight packed_byte is_upper scale_factor =
     (let w_4bit0 = (if is_upper then drop_bit 4 packed_byte AND 0x0F else packed_byte AND 0x0F);
          w_4bit = (if w_4bit0 AND 0x08 \<noteq> 0 then w_4bit0 OR 0xF0 else w_4bit0);
          shift_amount = (scale_factor AND 0x3) * 2
      in word_of_int (push_bit (unat shift_amount) (sint w_4bit)))"

text \<open>The signed value of the selected 4-bit field, as the claims speak of it.\<close>

definition nibble_value :: "u8 \<Rightarrow> bool \<Rightarrow> int" where
  "nibble_value packed_byte is_upper =
     (let v = (if is_upper then uint packed_byte div 16 else uint packed_byte mod 16)
      in if v < 8 then v else v - 16)"

section \<open>Errors and loops\<close>

text \<open>
  The C++ code indexes raw arrays and memory-mapped buffers without any check; an index
  outside the declared extent is undefined behaviour. The model checks every index
  against the declared extent (or the buffer length) and returns \<open>OutOfBounds\<close>
  instead, so that "every access is in bounds" is "the run returns \<open>Inr\<close>".
  Likewise a conversion from a floating-point value to \<open>int8_t\<close> whose value does not
  fit the target type is undefined behaviour; the model returns \<open>ConversionOverflow\<close>.
\<close>

datatype error = OutOfBounds | ConversionOverflow

definition bind_err :: "error + 'a \<Rightarrow> ('a \<Rightarrow> error + 'b) \<Rightarrow> error + 'b" where
  "bind_err r f = (case r of Inl e \<Rightarrow> Inl e | Inr x \<Rightarrow> f x)"

text \<open>\<open>for (int i = 0; i < n; ++i) body\<close>: the body runs for \<open>i = 0, ..., n - 1\<close> in order.\<close>

primrec for_loop :: "nat \<Rightarrow> (nat \<Rightarrow> 's \<Rightarrow> error + 's) \<Rightarrow> 's \<Rightarrow> error + 's" where
  "for_loop 0 body s = Inr s"
| "for_loop (Suc n) body s = bind_err (for_loop n body s) (body n)"

section \<open>The tiled compute engine (sa.cpp, SystolicArrayKernel)\<close>

text \<open>
  The file-scope static arrays and the output buffer form the state. An array of fixed
  extent is a function on its index tuple; the extents are checked at each access.
  \<open>result_writes\<close> is a ghost field: the sequence of indices of \<open>result\<close> that were
  stored to, in order. The kernel never reads it.

  The dimensions \<open>M\<close>, \<open>K\<close>, \<open>N\<close> and all indices are non-negative \<open>int\<close>s of the
  source, modelled as \<open>nat\<close>; for the dimensions the caches admit (\<open>K \<le> 4096\<close>, at most
  8 and 32 tiles) every index expression stays far below \<open>2^31\<close>.
  The accumulator \<open>C_work\<close> is \<open>int32_t\<close>, modelled as a 32-bit word.
\<close>

record kernel_state =
  A_cache :: "nat \<times> nat \<times> nat \<Rightarrow> i8"
  W_cache :: "nat \<times> nat \<times> nat \<Rightarrow> i8"
  A_work :: "nat \<times> nat \<Rightarrow> i8"
  W_work :: "nat \<times> nat \<Rightarrow> i8"
  C_work :: "nat \<times> nat \<Rightarrow> i32"
  result :: "i32 list"
  result_writes :: "nat list"

subsection \<open>Phase 1: activation preload\<close>

definition load_act_tile_body :: "i8 list \<Rightarrow> nat \<Rightarrow> nat \<Rightarrow> nat \<Rightarrow> kernel_state \<Rightarrow> error + kernel_state" where
  "load_act_tile_body activations K m_tile idx s =
     (let i = idx div K; k = idx mod K; m_idx = m_tile * PE_ROWS + i in
      if m_tile < A_TILES \<and> i < PE_ROWS \<and> k < K_DIM \<and> m_idx * K + k < length activations
      then Inr (s\<lparr>A_cache := (A_cache s)((m_tile, i, k) := activations ! (m_idx * K + k))\<rparr>)
      else Inl OutOfBounds)"

definition load_all_act :: "i8 list \<Rightarrow> nat \<Rightarrow> nat \<Rightarrow> kernel_state \<Rightarrow> error + kernel_state" where
  "load_all_act activations NUM_M_TILES K =
     for_loop NUM_M_TILES (\<lambda>m_tile. for_loop (PE_ROWS * K) (load_act_tile_body activations K m_tile))"

subsection \<open>Phase 2: weight preload with dequantization\<close>

definition load_wgt_tile_body :: "u8 list \<Rightarrow> u8 list \<Rightarrow> nat \<Rightarrow> nat \<Rightarrow> nat \<Rightarrow> nat \<Rightarrow> kernel_state \<Rightarrow> error + kernel_state" where
  "load_wgt_tile_body weights_packed scales K N n_tile idx s =
     (let j = idx div K; k = idx mod K; n_idx = n_tile * PE_COLS + j; w_linear = k * N + n_idx in
      if w_linear div 2 < length weights_packed \<and> w_linear div GROUP_SIZE < length scales
         \<and> n_tile < W_TILES \<and> j < PE_COLS \<and> k < K_DIM
      then
        let packed_byte = weights_packed ! (w_linear div 2);
            scale_factor = scales ! (w_linear div GROUP_SIZE);
            is_upper = (w_linear AND 1 \<noteq> 0)
        in Inr (s\<lparr>W_cache := (W_cache s)((n_tile, j, k) :=
                   unpack_dequantize_weight packed_byte is_upper scale_factor)\<rparr>)
      else Inl OutOfBounds)"

definition load_all_wgt :: "u8 list \<Rightarrow> u8 list \<Rightarrow> nat \<Rightarrow> nat \<Rightarrow> nat \<Rightarrow> kernel_state \<Rightarrow> error + kernel_state" where
  "load_all_wgt weights_packed scales NUM_N_TILES K N =
     for_loop NUM_N_TILES (\<lambda>n_tile. for_loop (PE_COLS * K) (load_wgt_tile_body weights_packed scales K N n_tile))"

subsection \<open>Phase 3: tiled accumulation\<close>

definition copy_A_body :: "nat \<Rightarrow> nat \<Rightarrow> nat \<Rightarrow> kernel_state \<Rightarrow> error + kernel_state" where
  "copy_A_body m_tile k i s =
     (if i < PE_ROWS \<and> k < K_DIM \<and> m_tile < A_TILES
      then Inr (s\<lparr>A_work := (A_work s)((i, k) := A_cache s (m_tile, i, k))\<rparr>)
      else Inl OutOfBounds)"

definition copy_W_body :: "nat \<Rightarrow> nat \<Rightarrow> nat \<Rightarrow> kernel_state \<Rightarrow> error + kernel_state" where
  "copy_W_body n_tile k j s =
     (if j < PE_COLS \<and> k < K_DIM \<and> n_tile < W_TILES
      then Inr (s\<lparr>W_work := (W_work s)((j, k) := W_cache s (n_tile, j, k))\<rparr>)
      else Inl OutOfBounds)"

definition copy_to_work :: "nat \<Rightarrow> nat \<Rightarrow> nat \<Rightarrow> kernel_state \<Rightarrow> error + kernel_state" where
  "copy_to_work K m_tile n_tile =
     for_loop K (\<lambda>k s. bind_err (for_loop PE_ROWS (copy_A_body m_tile k) s)
                               (for_loop PE_COLS (copy_W_body n_tile k)))"

definition init_body :: "nat \<Rightarrow> nat \<Rightarrow> kernel_state \<Rightarrow> error + kernel_state" where
  "init_body i j s =
     (if i < PE_ROWS \<and> j < PE_COLS
      then Inr (s\<lparr>C_work := (C_work s)((i, j) := 0)\<rparr>)
      else Inl OutOfBounds)"

definition init_output :: "kernel_state \<Rightarrow> error + kernel_state" where
  "init_output = for_loop PE_ROWS (\<lambda>i. for_loop PE_COLS (init_body i))"

text \<open>
  \<open>C_work[i][j] += (int32_t)a * (int32_t)w\<close>: both factors are sign-extended to 32
  bits (\<open>scast\<close>); product and sum are taken on 32-bit words.
\<close>

definition mac :: "i8 \<Rightarrow> i8 \<Rightarrow> i32" where
  "mac a w = scast a * scast w"

definition compute_body :: "nat \<Rightarrow> nat \<Rightarrow> nat \<Rightarrow> kernel_state \<Rightarrow> error + kernel_state" where
  "compute_body k i j s =
     (if i < PE_ROWS \<and> j < PE_COLS \<and> k < K_DIM
      then
        let a = A_work s (i, k); w = W_work s (j, k)
        in Inr (s\<lparr>C_work := (C_work s)((i, j) := C_work s (i, j) + mac a w)\<rparr>)
      else Inl OutOfBounds)"

definition compute :: "nat \<Rightarrow> kernel_state \<Rightarrow> error + kernel_state" where
  "compute K = for_loop K (\<lambda>k. for_loop PE_ROWS (\<lambda>i. for_loop PE_COLS (compute_body k i)))"

definition write_output_body :: "nat \<Rightarrow> nat \<Rightarrow> nat \<Rightarrow> nat \<Rightarrow> kernel_state \<Rightarrow> error + kernel_state" where
  "write_output_body N m_tile n_tile idx s =
     (let i = idx div PE_COLS; j = idx mod PE_COLS;
          m_idx = m_tile * PE_ROWS + i; n_idx = n_tile * PE_COLS + j in
      if i < PE_ROWS \<and> j < PE_COLS \<and> m_idx * N + n_idx < length (result s)
      then Inr (s\<lparr>result := (result s)[m_idx * N + n_idx := C_work s (i, j)],
                  result_writes := result_writes s @ [m_idx * N + n_idx]\<rparr>)
      else Inl OutOfBounds)"

definition write_output :: "nat \<Rightarrow> nat \<Rightarrow> nat \<Rightarrow> kernel_state \<Rightarrow> error + kernel_state" where
  "write_output N m_tile n_tile = for_loop (PE_ROWS * PE_COLS) (write_output_body N m_tile n_tile)"

definition tile_body :: "nat \<Rightarrow> nat \<Rightarrow> nat \<Rightarrow> nat \<Rightarrow> kernel_state \<Rightarrow> error + kernel_state" where
  "tile_body K N m_tile n_tile s =
     bind_err (copy_to_work K m_tile n_tile s) (\<lambda>s.
     bind_err (init_output s) (\<lambda>s.
     bind_err (compute K s) (write_output N m_tile n_tile)))"

definition m_loop :: "nat \<Rightarrow> nat \<Rightarrow> nat \<Rightarrow> nat \<Rightarrow> kernel_state \<Rightarrow> error + kernel_state" where
  "m_loop NUM_M_TILES NUM_N_TILES K N =
     for_loop NUM_M_TILES (\<lambda>m_tile. for_loop NUM_N_TILES (tile_body K N m_tile))"

definition SystolicArrayKernel ::
  "i8 list \<Rightarrow> u8 list \<Rightarrow> u8 list \<Rightarrow> nat \<Rightarrow> nat \<Rightarrow> nat \<Rightarrow> kernel_state \<Rightarrow> error + kernel_state" where
  "SystolicArrayKernel activations weights_packed scales M K N s =
     (let NUM_M_TILES = M div PE_ROWS; NUM_N_TILES = N div PE_COLS in
      bind_err (load_all_act activations NUM_M_TILES K s) (\<lambda>s.
      bind_err (load_all_wgt weights_packed scales NUM_N_TILES K N s)
               (m_loop NUM_M_TILES NUM_N_TILES K N)))"

section \<open>The reference model (main.cpp, cpu_reference)\<close>

text \<open>\<open>std::vector::resize(n, v)\<close>: keeps the first \<open>n\<close> elements, pads with \<open>v\<close>.\<close>

definition resize_vec :: "nat \<Rightarrow> 'a \<Rightarrow> 'a list \<Rightarrow> 'a list" where
  "resize_vec n v xs = take n xs @ replicate (n - length xs) v"

definition ref_k_body :: "i8 list \<Rightarrow> u8 list \<Rightarrow> u8 list \<Rightarrow> nat \<Rightarrow> nat \<Rightarrow> nat \<Rightarrow> nat \<Rightarrow> nat \<Rightarrow> i32 \<Rightarrow> error + i32" where
  "ref_k_body act wgt_packed scales K N m n k sum_v =
     (let w_idx = k * N + n; packed_idx = w_idx div 2; scale_idx = w_idx div GROUP_SIZE in
      if m * K + k < length act \<and> packed_idx < length wgt_packed \<and> scale_idx < length scales
      then
        let a = act ! (m * K + k);
            packed = wgt_packed ! packed_idx;
            scale_factor = scales ! scale_idx;
            is_upper = (w_idx mod 2 = 1);
            w = unpack_dequantize_weight packed is_upper scale_factor
        in Inr (sum_v + mac a w)
      else Inl OutOfBounds)"

definition ref_n_body :: "i8 list \<Rightarrow> u8 list \<Rightarrow> u8 list \<Rightarrow> nat \<Rightarrow> nat \<Rightarrow> nat \<Rightarrow> nat \<Rightarrow> i32 list \<Rightarrow> error + i32 list" where
  "ref_n_body act wgt_packed scales K N m n out =
     bind_err (for_loop K (ref_k_body act wgt_packed scales K N m n) 0) (\<lambda>sum_v.
       if m * N + n < length out then Inr (out[m * N + n := sum_v]) else Inl OutOfBounds)"

definition cpu_reference ::
  "i8 list \<Rightarrow> u8 list \<Rightarrow> u8 list \<Rightarrow> i32 list \<Rightarrow> nat \<Rightarrow> nat \<Rightarrow> nat \<Rightarrow> error + i32 list" where
  "cpu_reference act wgt_packed scales out M K N =
     for_loop M (\<lambda>m. for_loop N (ref_n_body act wgt_packed scales K N m))
       (resize_vec (M * N) 0 out)"

section \<open>The quantization codec (main.cpp, quantize_mxint4)\<close>

text \<open>
  A finite \<open>float\<close> is modelled by the real number it denotes. On finite floats the
  operations the codec uses are exact: \<open>std::fabs\<close>, \<open>std::max\<close>, \<open>std::pow(2.0f, 0 | 2 | 4 | 6)\<close>,
  the division by that power of two (a result that underflows rounds to the same
  integer as the exact quotient) and \<open>std::round\<close>, which rounds halves away from zero
  (\<open>c_round\<close>). The one inexact operation is \<open>std::log2\<close>: the value of
  \<open>(int)std::floor(std::log2(x))\<close> as the C library computes it is the parameter
  \<open>floor_log2\<close> of the model; \<open>exact_floor_log2\<close> is the mathematical function, which the
  library's value equals except just below a power of two (see \<open>floor_log2f\<close>).
  The conversion \<open>(int8_t)\<close> of the rounded quotient is \<open>to_int8\<close>.
\<close>

definition exact_floor_log2 :: "real \<Rightarrow> int" where
  "exact_floor_log2 x = \<lfloor>log 2 x\<rfloor>"




definition c_round :: "real \<Rightarrow> int" where
  "c_round x = (if 0 \<le> x then \<lfloor>x + 1 / 2\<rfloor> else - \<lfloor>- x + 1 / 2\<rfloor>)"

definition to_int8 :: "int \<Rightarrow> error + i8" where
  "to_int8 z = (if - 128 \<le> z \<and> z \<le> 127 then Inr (word_of_int z) else Inl ConversionOverflow)"

text \<open>
  \<open>std::max((int8_t)-8, std::min((int8_t)7, w))\<close> with the comparisons of the standard
  library: \<open>min(a, b)\<close> is \<open>b < a ? b : a\<close>, \<open>max(a, b)\<close> is \<open>a < b ? b : a\<close>, on signed values.
\<close>

definition clamp_4bit :: "i8 \<Rightarrow> i8" where
  "clamp_4bit w = (let m = (if sint w < 7 then w else 7) in if - 8 < sint m then m else - 8)"

text \<open>\<open>(w0 & 0x0F) | ((w1 & 0x0F) << 4)\<close>, narrowed to \<open>uint8_t\<close>.\<close>

definition pack_nibbles :: "i8 \<Rightarrow> i8 \<Rightarrow> u8" where
  "pack_nibbles w0 w1 = (w0 AND 0x0F) OR push_bit 4 (w1 AND 0x0F)"

definition max_abs_body :: "real list \<Rightarrow> nat \<Rightarrow> nat \<Rightarrow> real \<Rightarrow> error + real" where
  "max_abs_body weights_fp32 base_idx i max_abs =
     (if base_idx + i < length weights_fp32
      then Inr (max max_abs \<bar>weights_fp32 ! (base_idx + i)\<bar>)
      else Inl OutOfBounds)"

text \<open>The loop \<open>for (i = 0; i < GROUP_SIZE; i += 2)\<close> runs for \<open>i = 2 * p\<close>, \<open>p < GROUP_SIZE / 2\<close>.\<close>

definition quantize_pair_body :: "real list \<Rightarrow> nat \<Rightarrow> real \<Rightarrow> nat \<Rightarrow> u8 list \<Rightarrow> error + u8 list" where
  "quantize_pair_body weights_fp32 base_idx scale_val p weights_packed =
     (let i = 2 * p; idx0 = base_idx + i; idx1 = base_idx + i + 1 in
      if idx0 < length weights_fp32 \<and> idx1 < length weights_fp32
      then
        bind_err (to_int8 (c_round (weights_fp32 ! idx0 / scale_val))) (\<lambda>w0.
        bind_err (to_int8 (c_round (weights_fp32 ! idx1 / scale_val))) (\<lambda>w1.
          let w0 = clamp_4bit w0; w1 = clamp_4bit w1; packed = pack_nibbles w0 w1 in
          if idx0 div 2 < length weights_packed
          then Inr (weights_packed[idx0 div 2 := packed])
          else Inl OutOfBounds))
      else Inl OutOfBounds)"

definition quantize_group ::
  "(real \<Rightarrow> int) \<Rightarrow> real list \<Rightarrow> nat \<Rightarrow> u8 list \<times> u8 list \<Rightarrow> error + u8 list \<times> u8 list" where
  "quantize_group floor_log2 weights_fp32 grp st =
     (let weights_packed = fst st; scales = snd st; base_idx = grp * GROUP_SIZE in
      bind_err (for_loop GROUP_SIZE (max_abs_body weights_fp32 base_idx) 0) (\<lambda>max_abs.
        let shift = (if max_abs > 0 then max 0 (min 3 (floor_log2 max_abs - 3)) else 0) in
        if grp < length scales
        then
          let scales = scales[grp := word_of_int shift];
              scale_val = 2 ^ nat (shift * 2)
          in bind_err (for_loop (GROUP_SIZE div 2)
                         (quantize_pair_body weights_fp32 base_idx scale_val) weights_packed)
               (\<lambda>weights_packed. Inr (weights_packed, scales))
        else Inl OutOfBounds))"

definition quantize_mxint4 ::
  "(real \<Rightarrow> int) \<Rightarrow> real list \<Rightarrow> u8 list \<Rightarrow> u8 list \<Rightarrow> nat \<Rightarrow> nat \<Rightarrow> error + u8 list \<times> u8 list" where
  "quantize_mxint4 floor_log2 weights_fp32 weights_packed scales K N =
     (let total_weights = K * N in
      for_loop (total_weights div GROUP_SIZE) (quantize_group floor_log2 weights_fp32)
        (resize_vec (total_weights div 2) 0 weights_packed,
         resize_vec (total_weights div GROUP_SIZE) 0 scales))"

text \<open>
  What the claims about the codec speak of: the largest magnitude in group \<open>g\<close>, the
  shift derived from it, the rounded quotient of one weight, and the condition under
  which every float-to-\<open>int8_t\<close> conversion of the first \<open>G\<close> groups is defined.
\<close>

definition group_max_abs :: "real list \<Rightarrow> nat \<Rightarrow> real" where
  "group_max_abs ws g = Max ((\<lambda>i. \<bar>ws ! (g * GROUP_SIZE + i)\<bar>) ` {..<GROUP_SIZE})"

definition group_shift :: "(real \<Rightarrow> int) \<Rightarrow> real list \<Rightarrow> nat \<Rightarrow> int" where
  "group_shift floor_log2 ws g =
     (if group_max_abs ws g > 0 then max 0 (min 3 (floor_log2 (group_max_abs ws g) - 3)) else 0)"

definition scaled_round :: "(real \<Rightarrow> int) \<Rightarrow> real list \<Rightarrow> nat \<Rightarrow> int" where
  "scaled_round floor_log2 ws x =
     c_round (ws ! x / 2 ^ nat (group_shift floor_log2 ws (x div GROUP_SIZE) * 2))"

definition conversions_defined :: "(real \<Rightarrow> int) \<Rightarrow> real list \<Rightarrow> nat \<Rightarrow> bool" where
  "conversions_defined floor_log2 ws G \<longleftrightarrow>
     (\<forall>x<G * GROUP_SIZE. - 128 \<le> scaled_round floor_log2 ws x \<and> scaled_round floor_log2 ws x \<le> 127)"

definition quantized_nibble :: "(real \<Rightarrow> int) \<Rightarrow> real list \<Rightarrow> nat \<Rightarrow> i8" where
  "quantized_nibble floor_log2 ws x = clamp_4bit (word_of_int (scaled_round floor_log2 ws x))"

definition quantized_byte :: "(real \<Rightarrow> int) \<Rightarrow> real list \<Rightarrow> nat \<Rightarrow> u8" where
  "quantized_byte floor_log2 ws y =
     pack_nibbles (quantized_nibble floor_log2 ws (2 * y)) (quantized_nibble floor_log2 ws (2 * y + 1))"

text \<open>
  Objects of static storage duration are zero-initialised: the state in which the first
  invocation finds the static arrays, with the output buffer \<open>out_hw\<close> of the caller.
\<close>

definition initial_state :: "i32 list \<Rightarrow> kernel_state" where
  "initial_state out_hw =
     \<lparr>A_cache = (\<lambda>_. 0), W_cache = (\<lambda>_. 0), A_work = (\<lambda>_. 0), W_work = (\<lambda>_. 0),
      C_work = (\<lambda>_. 0), result = out_hw, result_writes = []\<rparr>"

section \<open>Specification functions and proof relations\<close>

text \<open>
  The dequantized weight at row \<open>k\<close>, column \<open>n\<close> of the K x N weight matrix (flattened
  index \<open>k * N + n\<close>), and the 32-bit dot product of activation row \<open>m\<close> with weight
  column \<open>n\<close>. Both the engine and the reference model are proved against these.
\<close>

definition deq_at :: "u8 list \<Rightarrow> u8 list \<Rightarrow> nat \<Rightarrow> nat \<Rightarrow> nat \<Rightarrow> i8" where
  "deq_at wp sc N k n =
     unpack_dequantize_weight (wp ! ((k * N + n) div 2)) (odd (k * N + n)) (sc ! ((k * N + n) div GROUP_SIZE))"

definition dot32 :: "i8 list \<Rightarrow> u8 list \<Rightarrow> u8 list \<Rightarrow> nat \<Rightarrow> nat \<Rightarrow> nat \<Rightarrow> nat \<Rightarrow> i32" where
  "dot32 acts wp sc K N m n = (\<Sum>k\<leftarrow>[0..<K]. mac (acts ! (m * K + k)) (deq_at wp sc N k n))"

text \<open>
  \<open>result_updated D P s s'\<close>: from \<open>s\<close> to \<open>s'\<close> the caches are unchanged, exactly the
  cells of \<open>result\<close> selected by \<open>P\<close> now hold \<open>D\<close>, and each of them was stored to once
  more. \<open>out_updated\<close> is the same for the reference model's output vector.
  \<open>caches_loaded\<close>: what phases 1 and 2 establish.
\<close>

definition result_updated :: "(nat \<Rightarrow> i32) \<Rightarrow> (nat \<Rightarrow> bool) \<Rightarrow> kernel_state \<Rightarrow> kernel_state \<Rightarrow> bool" where
  "result_updated D P s s' \<longleftrightarrow>
     A_cache s' = A_cache s \<and> W_cache s' = W_cache s \<and> length (result s') = length (result s) \<and>
     (\<forall>x<length (result s). result s' ! x = (if P x then D x else result s ! x)) \<and>
     (\<forall>x. count_list (result_writes s') x = count_list (result_writes s) x + (if P x then 1 else 0))"

definition out_updated :: "(nat \<Rightarrow> i32) \<Rightarrow> (nat \<Rightarrow> bool) \<Rightarrow> i32 list \<Rightarrow> i32 list \<Rightarrow> bool" where
  "out_updated D P out out' \<longleftrightarrow> length out' = length out \<and>
     (\<forall>x<length out. out' ! x = (if P x then D x else out ! x))"

definition caches_loaded :: "i8 list \<Rightarrow> u8 list \<Rightarrow> u8 list \<Rightarrow> nat \<Rightarrow> nat \<Rightarrow> nat \<Rightarrow> nat \<Rightarrow> kernel_state \<Rightarrow> bool" where
  "caches_loaded acts wp sc K N MT NT s \<longleftrightarrow>
     (\<forall>t<MT. \<forall>i<16. \<forall>k<K. A_cache s (t, i, k) = acts ! ((t * 16 + i) * K + k)) \<and>
     (\<forall>t<NT. \<forall>j<16. \<forall>k<K. W_cache s (t, j, k) = deq_at wp sc N k (t * 16 + j))"

text \<open>
  \<open>statics_agree SA SW TA TW TC a b\<close>: two runs hold the same output buffer and agree
  on the listed cells of the five static arrays; elsewhere the arrays may differ.
\<close>

definition statics_agree ::
  "(nat \<times> nat \<times> nat) set \<Rightarrow> (nat \<times> nat \<times> nat) set \<Rightarrow> (nat \<times> nat) set \<Rightarrow> (nat \<times> nat) set
    \<Rightarrow> (nat \<times> nat) set \<Rightarrow> kernel_state \<Rightarrow> kernel_state \<Rightarrow> bool" where
  "statics_agree SA SW TA TW TC a b \<longleftrightarrow>
     result a = result b \<and>
     (\<forall>p\<in>SA. A_cache a p = A_cache b p) \<and> (\<forall>p\<in>SW. W_cache a p = W_cache b p) \<and>
     (\<forall>p\<in>TA. A_work a p = A_work b p) \<and> (\<forall>p\<in>TW. W_work a p = W_work b p) \<and>
     (\<forall>p\<in>TC. C_work a p = C_work b p)"

section \<open>Properties of the dequantization primitive\<close>

lemma sign_extend_all_nibbles:
  "list_all (\<lambda>x :: 8 word.
      sint (if x AND 0x08 \<noteq> 0 then x OR 0xF0 else x) = (if uint x < 8 then uint x else uint x - 16))
     (map of_nat [0..<16])"
  by code_simp

lemma sign_extend_nibble:
  fixes x :: "8 word"
  assumes "x \<le> 15"
  shows "sint (if x AND 0x08 \<noteq> 0 then x OR 0xF0 else x) = (if uint x < 8 then uint x else uint x - 16)"
proof -
  have "unat x \<le> 15" using assms by (simp add: word_le_nat_alt)
  then have "unat x \<in> set [0..<16]" by simp
  then have "of_nat (unat x) \<in> set (map of_nat [0..<16] :: 8 word list)"
    unfolding set_map by (rule imageI)
  then have "x \<in> set (map of_nat [0..<16] :: 8 word list)" by simp
  with sign_extend_all_nibbles show ?thesis
    unfolding list_all_iff by (rule bspec)
qed

lemma low_nibble_le: "(p :: 8 word) AND 0x0F \<le> 15"
  by (rule word_and_le1)

lemma uint_low_nibble: "uint ((p :: 8 word) AND 0x0F) = uint p mod 16"
proof -
  have "p AND 0x0F = p AND mask 4" by (simp add: mask_eq_exp_minus_1)
  then show ?thesis by (simp add: and_mask_mod_2p uint_word_of_int)
qed

lemma uint_high_nibble: "uint (drop_bit 4 (p :: 8 word) AND 0x0F) = uint p div 16"
proof -
  have "uint (drop_bit 4 p) = uint p div 16" by (simp add: drop_bit_eq_div uint_div_distrib)
  moreover have "uint p div 16 < 16" using uint_lt2p [of p] by simp
  moreover have "0 \<le> uint p div 16" by (simp add: pos_imp_zdiv_nonneg_iff)
  ultimately show ?thesis by (simp add: uint_low_nibble)
qed

lemma sint_sign_extended_nibble:
  "sint (let w_4bit0 = (if is_upper then drop_bit 4 packed_byte AND 0x0F else packed_byte AND 0x0F)
         in if w_4bit0 AND 0x08 \<noteq> 0 then w_4bit0 OR 0xF0 else w_4bit0 :: 8 word)
   = nibble_value packed_byte is_upper"
proof (cases is_upper)
  case True
  then show ?thesis
    unfolding Let_def nibble_value_def
    by (simp only: sign_extend_nibble [OF low_nibble_le] uint_high_nibble if_True)
next
  case False
  then show ?thesis
    unfolding Let_def nibble_value_def
    by (simp only: sign_extend_nibble [OF low_nibble_le] uint_low_nibble if_False)
qed

lemma nibble_value_range: "- 8 \<le> nibble_value p u" "nibble_value p u \<le> 7"
proof -
  have "0 \<le> uint p mod 16" "uint p mod 16 < 16" by simp_all
  moreover have "0 \<le> uint p div 16" "uint p div 16 < 16"
    using uint_lt2p [of p] by (simp_all add: pos_imp_zdiv_nonneg_iff)
  ultimately show "- 8 \<le> nibble_value p u" "nibble_value p u \<le> 7"
    by (auto simp: nibble_value_def Let_def)
qed

lemma unat_shift_amount: "unat (((s :: 8 word) AND 0x3) * 2) = 2 * (unat s mod 4)"
proof -
  have "s AND 0x3 = take_bit 2 s" by (simp add: take_bit_eq_mask mask_eq_exp_minus_1)
  then have u: "unat (s AND 0x3) = unat s mod 4"
    by (simp add: unsigned_take_bit_eq take_bit_eq_mod unat_mod_distrib)
  have "unat s mod 4 < 4" by simp
  then have "unat (s AND 0x3) * unat (2 :: 8 word) < 2 ^ LENGTH(8)" using u by simp
  then have "unat ((s AND 0x3) * 2) = unat (s AND 0x3) * unat (2 :: 8 word)"
    by (rule unat_mult_lem [THEN iffD1])
  then show ?thesis using u by simp
qed

lemma sint_unpack_dequantize_weight:
  "sint (unpack_dequantize_weight p u s) =
     signed_take_bit 7 (nibble_value p u * 4 ^ (unat s mod 4))"
proof -
  have "sint (unpack_dequantize_weight p u s) =
     signed_take_bit 7 (push_bit (2 * (unat s mod 4)) (nibble_value p u))"
    using sint_sign_extended_nibble [of u p]
    by (simp add: unpack_dequantize_weight_def Let_def unat_shift_amount sint_sbintrunc')
  then show ?thesis by (simp add: push_bit_eq_mult power_mult)
qed

lemma sint_unpack_dequantize_weight_exact:
  assumes "unat s mod 4 \<le> 2"
  shows "sint (unpack_dequantize_weight p u s) = nibble_value p u * 4 ^ (unat s mod 4)"
proof -
  let ?v = "nibble_value p u" and ?e = "unat s mod 4"
  have e: "?e = 0 \<or> ?e = 1 \<or> ?e = 2" using assms by arith
  have v: "- 8 \<le> ?v" "?v \<le> 7" by (rule nibble_value_range)+
  have "- 128 \<le> ?v * 4 ^ ?e \<and> ?v * 4 ^ ?e < 128"
    using e v by (elim disjE) simp_all
  then have "signed_take_bit 7 (?v * 4 ^ ?e) = ?v * 4 ^ ?e"
    by (intro signed_take_bit_int_eq_self) simp_all
  then show ?thesis by (simp add: sint_unpack_dequantize_weight)
qed

text \<open>
  C2 (code evaluated at the failing input). For the packed byte 0x07, the low nibble
  (value 7) and scale 3, the claim asks for 7 * 2^6 = 448; the code returns the
  \<open>int8_t\<close> -64, because the shifted value is narrowed to 8 bits on return.
\<close>

theorem unpack_dequantize_weight_wraps_at_scale_3:
  "nibble_value 0x07 False = 7 \<and>
   sint (unpack_dequantize_weight 0x07 False 3) = -64 \<and>
   sint (unpack_dequantize_weight 0x07 False 3) \<noteq> nibble_value 0x07 False * 2 ^ (2 * (3 mod 4))"
  by (simp add: unpack_dequantize_weight_def nibble_value_def)

section \<open>The engine: loops and the three phases\<close>

lemma bind_err_Inr [simp]: "bind_err (Inr x) f = f x"
  by (simp add: bind_err_def)

lemma bind_err_Inl [simp]: "bind_err (Inl e) f = Inl e"
  by (simp add: bind_err_def)

lemma for_loop_rule:
  assumes init: "I 0 s"
    and step: "\<And>i t. i < n \<Longrightarrow> I i t \<Longrightarrow> \<exists>t'. body i t = Inr t' \<and> I (Suc i) t'"
  shows "\<exists>t. for_loop n body s = Inr t \<and> I n t"
proof -
  have "m \<le> n \<Longrightarrow> \<exists>t. for_loop m body s = Inr t \<and> I m t" for m
  proof (induction m)
    case 0
    show ?case using init by simp
  next
    case (Suc m)
    then obtain t where t: "for_loop m body s = Inr t" "I m t" by auto
    from Suc.prems have "m < n" by simp
    from step [OF this t(2)] show ?case using t(1) by simp
  qed
  then show ?thesis by blast
qed

lemma divmod_unique_nat:
  fixes K :: nat
  assumes "k < K"
  shows "i * K + k = n \<longleftrightarrow> i = n div K \<and> k = n mod K"
  using assms by (auto simp: div_mult_mod_eq)

lemma load_act_tile_loop:
  assumes mt: "m_tile < 8" and K: "K \<le> 4096"
    and len: "(m_tile * 16 + 16) * K \<le> length acts"
    and n: "n \<le> 16 * K"
  shows "for_loop n (load_act_tile_body acts K m_tile) s =
     Inr (s\<lparr>A_cache := \<lambda>(t, i, k). if t = m_tile \<and> k < K \<and> i * K + k < n
                          then acts ! ((m_tile * 16 + i) * K + k) else A_cache s (t, i, k)\<rparr>)"
  using n
proof (induction n)
  case 0
  have "(\<lambda>(t, i, k). A_cache s (t, i, k)) = A_cache s" by (auto simp: fun_eq_iff)
  then show ?case by simp
next
  case (Suc n)
  then have nlt: "n < 16 * K" by simp
  then have Kpos: "0 < K" by (cases K) auto
  have i16: "n div K < 16" using nlt Kpos by (simp add: less_mult_imp_div_less mult.commute)
  have k: "n mod K < K" using Kpos by simp
  have "n div K * K + n mod K < 16 * K" using nlt by simp
  then have idx: "(m_tile * 16 + n div K) * K + n mod K < length acts"
    using len by (simp add: algebra_simps)
  have eq: "\<And>i k. k < K \<Longrightarrow> (i * K + k < Suc n) = (i * K + k < n \<or> (i = n div K \<and> k = n mod K))"
    using divmod_unique_nat by (metis less_Suc_eq)
  have k4096: "n mod K < 4096" using k K by linarith
  let ?f = "\<lambda>n (t, i, k). if t = m_tile \<and> k < K \<and> i * K + k < n
                          then acts ! ((m_tile * 16 + i) * K + k) else A_cache s (t, i, k)"
  have upd: "(?f n)((m_tile, n div K, n mod K) := acts ! ((m_tile * 16 + n div K) * K + n mod K)) = ?f (Suc n)"
    using k by (auto simp: fun_eq_iff eq)
  have "for_loop (Suc n) (load_act_tile_body acts K m_tile) s
      = load_act_tile_body acts K m_tile n (s\<lparr>A_cache := ?f n\<rparr>)"
    using Suc.IH nlt by simp
  also have "\<dots> = Inr (s\<lparr>A_cache := ?f (Suc n)\<rparr>)"
    using mt k4096 i16 idx upd
    by (simp add: load_act_tile_body_def Let_def PE_ROWS_def A_TILES_def K_DIM_def)
  finally show ?case .
qed


lemma tile_index_full:
  fixes K :: nat
  assumes "k < K"
  shows "i * K + k < 16 * K \<longleftrightarrow> i < 16"
proof
  assume a: "i * K + k < 16 * K"
  show "i < 16"
  proof (rule ccontr)
    assume "\<not> i < 16"
    then have "16 * K \<le> i * K" by simp
    with a show False by simp
  qed
next
  assume "i < 16"
  then have "Suc i \<le> 16" by simp
  then have "Suc i * K \<le> 16 * K" by (rule mult_le_mono1)
  moreover have "Suc i * K = i * K + K" by simp
  ultimately show "i * K + k < 16 * K" using assms by linarith
qed

lemma load_all_act_ok:
  assumes K: "K \<le> 4096" and MT: "MT \<le> 8" and len: "16 * MT * K \<le> length acts"
  shows "load_all_act acts MT K s =
     Inr (s\<lparr>A_cache := \<lambda>(t, i, k). if t < MT \<and> i < 16 \<and> k < K
                          then acts ! ((t * 16 + i) * K + k) else A_cache s (t, i, k)\<rparr>)"
proof -
  let ?f = "\<lambda>n (t, i, k). if t < n \<and> i < 16 \<and> k < K
                          then acts ! ((t * 16 + i) * K + k) else A_cache s (t, i, k)"
  have "n \<le> MT \<Longrightarrow> for_loop n (\<lambda>m_tile. for_loop (PE_ROWS * K) (load_act_tile_body acts K m_tile)) s
        = Inr (s\<lparr>A_cache := ?f n\<rparr>)" for n
  proof (induction n)
    case 0
    have "?f 0 = A_cache s" by (auto simp: fun_eq_iff)
    then show ?case by simp
  next
    case (Suc n)
    then have n: "n < MT" by simp
    then have n8: "n < 8" using MT by simp
    have "(n * 16 + 16) * K \<le> 16 * MT * K"
    proof -
      have "n * 16 + 16 \<le> 16 * MT" using n by simp
      then show ?thesis by (rule mult_le_mono1)
    qed
    then have len': "(n * 16 + 16) * K \<le> length acts" using len by (rule order_trans)
    show ?case
      using Suc.IH n load_act_tile_loop [OF n8 K len' order_refl, of "s\<lparr>A_cache := ?f n\<rparr>"]
      apply (simp add: PE_ROWS_def)
      apply (rule arg_cong [where f = "\<lambda>f. s\<lparr>A_cache := f\<rparr>"])
      apply (auto simp: fun_eq_iff tile_index_full)
      done
  qed
  from this [of MT] show ?thesis by (simp add: load_all_act_def)
qed

lemma is_upper_odd: "((w :: nat) AND 1 \<noteq> 0) = odd w"
  by (simp add: and_one_eq odd_iff_mod_2_eq_one)

lemma load_wgt_tile_body_eq:
  assumes "n_tile < 32" "idx mod K < 4096" "idx div K < 16"
    and "(idx mod K * N + (n_tile * 16 + idx div K)) div 2 < length wp"
    and "(idx mod K * N + (n_tile * 16 + idx div K)) div 16 < length sc"
  shows "load_wgt_tile_body wp sc K N n_tile idx s =
     Inr (s\<lparr>W_cache := (W_cache s)((n_tile, idx div K, idx mod K) :=
            deq_at wp sc N (idx mod K) (n_tile * 16 + idx div K))\<rparr>)"
  unfolding load_wgt_tile_body_def deq_at_def Let_def is_upper_odd
    PE_COLS_def W_TILES_def K_DIM_def GROUP_SIZE_def
  using assms by simp

lemma load_wgt_tile_loop:
  assumes nt: "n_tile < 32" and K: "K \<le> 4096"
    and len: "\<forall>k<K. \<forall>j<16. (k * N + (n_tile * 16 + j)) div 2 < length wp
                         \<and> (k * N + (n_tile * 16 + j)) div 16 < length sc"
    and n: "n \<le> 16 * K"
  shows "for_loop n (load_wgt_tile_body wp sc K N n_tile) s =
     Inr (s\<lparr>W_cache := \<lambda>(t, j, k). if t = n_tile \<and> k < K \<and> j * K + k < n
                          then deq_at wp sc N k (n_tile * 16 + j) else W_cache s (t, j, k)\<rparr>)"
  using n
proof (induction n)
  case 0
  have "(\<lambda>(t, i, k). W_cache s (t, i, k)) = W_cache s" by (auto simp: fun_eq_iff)
  then show ?case by simp
next
  case (Suc n)
  then have nlt: "n < 16 * K" by simp
  then have Kpos: "0 < K" by (cases K) auto
  have j16: "n div K < 16" using nlt Kpos by (simp add: less_mult_imp_div_less mult.commute)
  have k: "n mod K < K" using Kpos by simp
  have k4096: "n mod K < 4096" using k K by linarith
  have idx: "(n mod K * N + (n_tile * 16 + n div K)) div 2 < length wp"
            "(n mod K * N + (n_tile * 16 + n div K)) div 16 < length sc"
    using len k j16 by auto
  have eq: "\<And>i k. k < K \<Longrightarrow> (i * K + k < Suc n) = (i * K + k < n \<or> (i = n div K \<and> k = n mod K))"
    using divmod_unique_nat by (metis less_Suc_eq)
  let ?f = "\<lambda>n (t, j, k). if t = n_tile \<and> k < K \<and> j * K + k < n
                          then deq_at wp sc N k (n_tile * 16 + j) else W_cache s (t, j, k)"
  have upd: "(?f n)((n_tile, n div K, n mod K) := deq_at wp sc N (n mod K) (n_tile * 16 + n div K)) = ?f (Suc n)"
    using k by (auto simp: fun_eq_iff eq)
  have "for_loop (Suc n) (load_wgt_tile_body wp sc K N n_tile) s
      = load_wgt_tile_body wp sc K N n_tile n (s\<lparr>W_cache := ?f n\<rparr>)"
    using Suc.IH nlt by simp
  also have "\<dots> = Inr (s\<lparr>W_cache := ?f (Suc n)\<rparr>)"
    using upd by (simp add: load_wgt_tile_body_eq [OF nt k4096 j16 idx])
  finally show ?case .
qed

lemma load_all_wgt_ok:
  assumes K: "K \<le> 4096" and NT: "NT \<le> 32"
    and len: "\<forall>k<K. \<forall>n<16 * NT. (k * N + n) div 2 < length wp \<and> (k * N + n) div 16 < length sc"
  shows "load_all_wgt wp sc NT K N s =
     Inr (s\<lparr>W_cache := \<lambda>(t, j, k). if t < NT \<and> j < 16 \<and> k < K
                          then deq_at wp sc N k (t * 16 + j) else W_cache s (t, j, k)\<rparr>)"
proof -
  let ?f = "\<lambda>n (t, j, k). if t < n \<and> j < 16 \<and> k < K
                          then deq_at wp sc N k (t * 16 + j) else W_cache s (t, j, k)"
  have "n \<le> NT \<Longrightarrow> for_loop n (\<lambda>n_tile. for_loop (PE_COLS * K) (load_wgt_tile_body wp sc K N n_tile)) s
        = Inr (s\<lparr>W_cache := ?f n\<rparr>)" for n
  proof (induction n)
    case 0
    have "?f 0 = W_cache s" by (auto simp: fun_eq_iff)
    then show ?case by simp
  next
    case (Suc n)
    then have n: "n < NT" by simp
    then have n32: "n < 32" using NT by simp
    have len': "\<forall>k<K. \<forall>j<16. (k * N + (n * 16 + j)) div 2 < length wp
                         \<and> (k * N + (n * 16 + j)) div 16 < length sc"
    proof (intro allI impI)
      fix k j :: nat assume "k < K" "j < 16"
      moreover have "n * 16 + j < 16 * NT" using n \<open>j < 16\<close> by simp
      ultimately show "(k * N + (n * 16 + j)) div 2 < length wp
                         \<and> (k * N + (n * 16 + j)) div 16 < length sc"
        using len by blast
    qed
    show ?case
      using Suc.IH n load_wgt_tile_loop [OF n32 K len' order_refl, of "s\<lparr>W_cache := ?f n\<rparr>"]
      apply (simp add: PE_COLS_def)
      apply (rule arg_cong [where f = "\<lambda>f. s\<lparr>W_cache := f\<rparr>"])
      apply (auto simp: fun_eq_iff tile_index_full)
      done
  qed
  from this [of NT] show ?thesis by (simp add: load_all_wgt_def)
qed


lemma for_loop_closed:
  assumes "\<And>i. i < n \<Longrightarrow> body i (g i) = Inr (g (Suc i))"
  shows "for_loop n body (g 0) = Inr (g n)"
  using assms by (induction n) simp_all

lemma copy_A_loop:
  assumes "m_tile < 8" "k < 4096" "n \<le> 16"
  shows "for_loop n (copy_A_body m_tile k) s =
     Inr (s\<lparr>A_work := \<lambda>(i, k'). if k' = k \<and> i < n then A_cache s (m_tile, i, k) else A_work s (i, k')\<rparr>)"
proof -
  let ?g = "\<lambda>n. s\<lparr>A_work := \<lambda>(i, k'). if k' = k \<and> i < n then A_cache s (m_tile, i, k) else A_work s (i, k')\<rparr>"
  have "for_loop n (copy_A_body m_tile k) (?g 0) = Inr (?g n)"
  proof (rule for_loop_closed)
    fix i assume "i < n"
    then have "i < 16" using assms by simp
    then show "copy_A_body m_tile k i (?g i) = Inr (?g (Suc i))"
      using assms by (auto simp: copy_A_body_def PE_ROWS_def K_DIM_def A_TILES_def fun_eq_iff)
  qed
  moreover have "?g 0 = s" by simp
  ultimately show ?thesis by simp
qed

lemma copy_W_loop:
  assumes "n_tile < 32" "k < 4096" "n \<le> 16"
  shows "for_loop n (copy_W_body n_tile k) s =
     Inr (s\<lparr>W_work := \<lambda>(j, k'). if k' = k \<and> j < n then W_cache s (n_tile, j, k) else W_work s (j, k')\<rparr>)"
proof -
  let ?g = "\<lambda>n. s\<lparr>W_work := \<lambda>(j, k'). if k' = k \<and> j < n then W_cache s (n_tile, j, k) else W_work s (j, k')\<rparr>"
  have "for_loop n (copy_W_body n_tile k) (?g 0) = Inr (?g n)"
  proof (rule for_loop_closed)
    fix j assume "j < n"
    then have "j < 16" using assms by simp
    then show "copy_W_body n_tile k j (?g j) = Inr (?g (Suc j))"
      using assms by (auto simp: copy_W_body_def PE_COLS_def K_DIM_def W_TILES_def fun_eq_iff)
  qed
  moreover have "?g 0 = s" by simp
  ultimately show ?thesis by simp
qed

lemma copy_to_work_ok:
  assumes mt: "m_tile < 8" and nt: "n_tile < 32" and K: "K \<le> 4096"
  shows "copy_to_work K m_tile n_tile s =
     Inr (s\<lparr>A_work := \<lambda>(i, k). if i < 16 \<and> k < K then A_cache s (m_tile, i, k) else A_work s (i, k),
            W_work := \<lambda>(j, k). if j < 16 \<and> k < K then W_cache s (n_tile, j, k) else W_work s (j, k)\<rparr>)"
proof -
  let ?g = "\<lambda>n. s\<lparr>A_work := \<lambda>(i, k). if i < 16 \<and> k < n then A_cache s (m_tile, i, k) else A_work s (i, k),
            W_work := \<lambda>(j, k). if j < 16 \<and> k < n then W_cache s (n_tile, j, k) else W_work s (j, k)\<rparr>"
  have "for_loop K (\<lambda>k s. bind_err (for_loop PE_ROWS (copy_A_body m_tile k) s)
                               (for_loop PE_COLS (copy_W_body n_tile k))) (?g 0) = Inr (?g K)"
  proof (rule for_loop_closed)
    fix k assume "k < K"
    then have k: "k < 4096" using K by simp
    show "bind_err (for_loop PE_ROWS (copy_A_body m_tile k) (?g k))
                               (for_loop PE_COLS (copy_W_body n_tile k)) = Inr (?g (Suc k))"
      by (auto simp: PE_ROWS_def PE_COLS_def copy_A_loop [OF mt k] copy_W_loop [OF nt k] fun_eq_iff less_Suc_eq)
  qed
  moreover have "?g 0 = s" by simp
  ultimately show ?thesis by (simp add: copy_to_work_def)
qed

lemma init_inner_loop:
  assumes "i < 16" "n \<le> 16"
  shows "for_loop n (init_body i) s =
     Inr (s\<lparr>C_work := \<lambda>(i', j). if i' = i \<and> j < n then 0 else C_work s (i', j)\<rparr>)"
proof -
  let ?g = "\<lambda>n. s\<lparr>C_work := \<lambda>(i', j). if i' = i \<and> j < n then 0 else C_work s (i', j)\<rparr>"
  have "for_loop n (init_body i) (?g 0) = Inr (?g n)"
  proof (rule for_loop_closed)
    fix j assume "j < n"
    then have "j < 16" using assms by simp
    then show "init_body i j (?g j) = Inr (?g (Suc j))"
      using assms by (auto simp: init_body_def PE_ROWS_def PE_COLS_def fun_eq_iff)
  qed
  moreover have "?g 0 = s" by simp
  ultimately show ?thesis by simp
qed

lemma init_output_ok:
  "init_output s = Inr (s\<lparr>C_work := \<lambda>(i, j). if i < 16 \<and> j < 16 then 0 else C_work s (i, j)\<rparr>)"
proof -
  let ?g = "\<lambda>n. s\<lparr>C_work := \<lambda>(i, j). if i < n \<and> j < 16 then 0 else C_work s (i, j)\<rparr>"
  have "for_loop 16 (\<lambda>i. for_loop PE_COLS (init_body i)) (?g 0) = Inr (?g 16)"
  proof (rule for_loop_closed)
    fix i :: nat assume i: "i < 16"
    show "for_loop PE_COLS (init_body i) (?g i) = Inr (?g (Suc i))"
      by (auto simp: PE_COLS_def init_inner_loop [OF i] fun_eq_iff less_Suc_eq)
  qed
  moreover have "?g 0 = s" by simp
  ultimately show ?thesis by (simp add: init_output_def PE_ROWS_def)
qed

lemma compute_j_loop:
  assumes "i < 16" "k < 4096" "n \<le> 16"
  shows "for_loop n (compute_body k i) s =
     Inr (s\<lparr>C_work := \<lambda>(i', j). if i' = i \<and> j < n
              then C_work s (i', j) + mac (A_work s (i, k)) (W_work s (j, k)) else C_work s (i', j)\<rparr>)"
proof -
  let ?g = "\<lambda>n. s\<lparr>C_work := \<lambda>(i', j). if i' = i \<and> j < n
              then C_work s (i', j) + mac (A_work s (i, k)) (W_work s (j, k)) else C_work s (i', j)\<rparr>"
  have "for_loop n (compute_body k i) (?g 0) = Inr (?g n)"
  proof (rule for_loop_closed)
    fix j assume "j < n"
    then have "j < 16" using assms by simp
    then show "compute_body k i j (?g j) = Inr (?g (Suc j))"
      using assms by (auto simp: compute_body_def PE_ROWS_def PE_COLS_def K_DIM_def fun_eq_iff)
  qed
  moreover have "?g 0 = s" by simp
  ultimately show ?thesis by simp
qed

lemma compute_i_loop:
  assumes k: "k < 4096"
  shows "for_loop PE_ROWS (\<lambda>i. for_loop PE_COLS (compute_body k i)) s =
     Inr (s\<lparr>C_work := \<lambda>(i, j). if i < 16 \<and> j < 16
              then C_work s (i, j) + mac (A_work s (i, k)) (W_work s (j, k)) else C_work s (i, j)\<rparr>)"
proof -
  let ?g = "\<lambda>n. s\<lparr>C_work := \<lambda>(i, j). if i < n \<and> j < 16
              then C_work s (i, j) + mac (A_work s (i, k)) (W_work s (j, k)) else C_work s (i, j)\<rparr>"
  have "for_loop 16 (\<lambda>i. for_loop PE_COLS (compute_body k i)) (?g 0) = Inr (?g 16)"
  proof (rule for_loop_closed)
    fix i :: nat assume i: "i < 16"
    show "for_loop PE_COLS (compute_body k i) (?g i) = Inr (?g (Suc i))"
      by (auto simp: PE_COLS_def compute_j_loop [OF i k] fun_eq_iff less_Suc_eq)
  qed
  moreover have "?g 0 = s" by simp
  ultimately show ?thesis by (simp add: PE_ROWS_def)
qed

lemma compute_ok:
  assumes K: "K \<le> 4096"
  shows "compute K s =
     Inr (s\<lparr>C_work := \<lambda>(i, j). if i < 16 \<and> j < 16
              then C_work s (i, j) + (\<Sum>k\<leftarrow>[0..<K]. mac (A_work s (i, k)) (W_work s (j, k)))
              else C_work s (i, j)\<rparr>)"
proof -
  let ?g = "\<lambda>n. s\<lparr>C_work := \<lambda>(i, j). if i < 16 \<and> j < 16
              then C_work s (i, j) + (\<Sum>k\<leftarrow>[0..<n]. mac (A_work s (i, k)) (W_work s (j, k)))
              else C_work s (i, j)\<rparr>"
  have "for_loop K (\<lambda>k. for_loop PE_ROWS (\<lambda>i. for_loop PE_COLS (compute_body k i))) (?g 0) = Inr (?g K)"
  proof (rule for_loop_closed)
    fix k assume "k < K"
    then have k: "k < 4096" using K by simp
    show "for_loop PE_ROWS (\<lambda>i. for_loop PE_COLS (compute_body k i)) (?g k) = Inr (?g (Suc k))"
      by (auto simp: compute_i_loop [OF k] fun_eq_iff add.assoc)
  qed
  moreover have "?g 0 = s"
  proof -
    have "(\<lambda>(i, j). if i < 16 \<and> j < 16
              then C_work s (i, j) + (\<Sum>k\<leftarrow>[0..<0]. mac (A_work s (i, k)) (W_work s (j, k)))
              else C_work s (i, j)) = C_work s"
      by (auto simp: fun_eq_iff)
    then show ?thesis by simp
  qed
  ultimately show ?thesis by (simp add: compute_def)
qed

lemma result_updated_refl: "result_updated D (\<lambda>x. False) s s"
  by (simp add: result_updated_def)

lemma result_updated_trans:
  assumes "result_updated D P s s'" and "result_updated D Q s' s''"
    and "\<And>x. P x \<Longrightarrow> Q x \<Longrightarrow> False" and "\<And>x. R x \<longleftrightarrow> P x \<or> Q x"
  shows "result_updated D R s s''"
  using assms unfolding result_updated_def by auto

lemma result_updated_cong:
  assumes "result_updated D P s s'"
    and "\<And>x. P x \<Longrightarrow> D x = D' x"
    and "A_cache s = A_cache s0" "W_cache s = W_cache s0" "result s = result s0"
        "result_writes s = result_writes s0"
  shows "result_updated D' P s0 s'"
  using assms unfolding result_updated_def by auto

lemma cell_div_mod:
  fixes N :: nat
  assumes "b < N"
  shows "(a * N + b) div N = a" "(a * N + b) mod N = b"
  using assms by simp_all

lemma cell_eq_iff:
  fixes N :: nat
  assumes "b < N"
  shows "x = a * N + b \<longleftrightarrow> x div N = a \<and> x mod N = b"
  using assms by (metis cell_div_mod div_mult_mod_eq)

lemma write_step_pred:
  fixes a b :: nat
  assumes "idx < 256"
  shows "(a div 16 = mt \<and> b div 16 = nt \<and> a mod 16 * 16 + b mod 16 < Suc idx) \<longleftrightarrow>
         (a div 16 = mt \<and> b div 16 = nt \<and> a mod 16 * 16 + b mod 16 < idx) \<or>
         (a = mt * 16 + idx div 16 \<and> b = nt * 16 + idx mod 16)"
proof -
  have i: "idx div 16 < 16" using assms by simp
  have j: "idx mod 16 < 16" by simp
  have r: "a mod 16 * 16 + b mod 16 = idx \<longleftrightarrow> a mod 16 = idx div 16 \<and> b mod 16 = idx mod 16"
    by (rule divmod_unique_nat) simp
  have a: "a = mt * 16 + idx div 16 \<longleftrightarrow> a div 16 = mt \<and> a mod 16 = idx div 16"
    by (rule cell_eq_iff [OF i])
  have b: "b = nt * 16 + idx mod 16 \<longleftrightarrow> b div 16 = nt \<and> b mod 16 = idx mod 16"
    by (rule cell_eq_iff [OF j])
  show ?thesis
    unfolding a b less_Suc_eq r by blast
qed

lemma write_output_body_step:
  assumes N: "n_tile * 16 + 16 \<le> N"
    and len: "(m_tile * 16 + 15) * N + n_tile * 16 + 15 < length (result t)"
    and idx: "idx < 256"
  shows "\<exists>t'. write_output_body N m_tile n_tile idx t = Inr t' \<and> C_work t' = C_work t \<and>
     result_updated (\<lambda>x. C_work t (x div N mod 16, x mod N mod 16))
       (\<lambda>x. x div N = m_tile * 16 + idx div 16 \<and> x mod N = n_tile * 16 + idx mod 16) t t'"
proof -
  let ?i = "idx div 16" and ?j = "idx mod 16"
  let ?x0 = "(m_tile * 16 + ?i) * N + (n_tile * 16 + ?j)"
  have i: "?i < 16" using idx by simp
  have j: "?j < 16" by simp
  have b: "n_tile * 16 + ?j < N" using N j by linarith
  have "(m_tile * 16 + ?i) * N \<le> (m_tile * 16 + 15) * N"
    using i by (intro mult_le_mono1) simp
  then have x0: "?x0 < length (result t)" using len j by linarith
  have eq: "\<And>x. (x = ?x0) = (x div N = m_tile * 16 + ?i \<and> x mod N = n_tile * 16 + ?j)"
    using cell_eq_iff [OF b] by blast
  have "?x0 div N = m_tile * 16 + ?i" "?x0 mod N = n_tile * 16 + ?j"
    by (rule cell_div_mod [OF b])+
  then have d: "?x0 div N mod 16 = ?i" "?x0 mod N mod 16 = ?j"
    using i by simp_all
  show ?thesis
    using i j x0 d
    by (auto simp: write_output_body_def Let_def PE_ROWS_def PE_COLS_def result_updated_def
        nth_list_update eq [symmetric] add.assoc)
qed

lemma P256:
  fixes x N :: nat
  shows "x div N mod 16 * 16 + x mod N mod 16 < 256"
proof -
  have "x div N mod 16 < 16" "x mod N mod 16 < 16" by simp_all
  then show ?thesis by linarith
qed

lemma write_output_ok:
  assumes N: "n_tile * 16 + 16 \<le> N"
    and len: "(m_tile * 16 + 15) * N + n_tile * 16 + 15 < length (result s)"
  shows "\<exists>s'. write_output N m_tile n_tile s = Inr s' \<and>
     result_updated (\<lambda>x. C_work s (x div N mod 16, x mod N mod 16))
       (\<lambda>x. x div N div 16 = m_tile \<and> x mod N div 16 = n_tile) s s'"
proof -
  let ?D = "\<lambda>x. C_work s (x div N mod 16, x mod N mod 16)"
  let ?P = "\<lambda>idx x. x div N div 16 = m_tile \<and> x mod N div 16 = n_tile
                 \<and> x div N mod 16 * 16 + x mod N mod 16 < idx"
  let ?I = "\<lambda>idx t. C_work t = C_work s \<and> result_updated ?D (?P idx) s t"
  have "\<exists>t. for_loop 256 (write_output_body N m_tile n_tile) s = Inr t \<and> ?I 256 t"
  proof (rule for_loop_rule [where I = ?I and n = 256])
    show "?I 0 s" using result_updated_refl [of ?D s] by simp
  next
    fix idx t assume idx: "idx < (256::nat)" and I: "?I idx t"
    then have lt: "length (result t) = length (result s)" by (simp add: result_updated_def)
    from write_output_body_step [OF N len [folded lt] idx]
    obtain t' where t': "write_output_body N m_tile n_tile idx t = Inr t'" "C_work t' = C_work t"
      "result_updated (\<lambda>x. C_work t (x div N mod 16, x mod N mod 16))
       (\<lambda>x. x div N = m_tile * 16 + idx div 16 \<and> x mod N = n_tile * 16 + idx mod 16) t t'"
      by blast
    have "result_updated ?D (?P (Suc idx)) s t'"
    proof (rule result_updated_trans)
      show "result_updated ?D (?P idx) s t" using I by simp
      show "result_updated ?D
         (\<lambda>x. x div N = m_tile * 16 + idx div 16 \<and> x mod N = n_tile * 16 + idx mod 16) t t'"
        using t'(3) I by simp
      show "\<And>x. ?P (Suc idx) x \<longleftrightarrow> ?P idx x \<or>
         (x div N = m_tile * 16 + idx div 16 \<and> x mod N = n_tile * 16 + idx mod 16)"
        by (rule write_step_pred [OF idx])
      show "\<And>x. ?P idx x \<Longrightarrow>
         x div N = m_tile * 16 + idx div 16 \<and> x mod N = n_tile * 16 + idx mod 16 \<Longrightarrow> False"
      proof -
        fix x assume P: "?P idx x"
          and x: "x div N = m_tile * 16 + idx div 16 \<and> x mod N = n_tile * 16 + idx mod 16"
        have "idx div 16 < 16" using idx by simp
        then have "x div N mod 16 = idx div 16" using x by simp
        moreover have "x mod N mod 16 = idx mod 16" using x by simp
        ultimately have "x div N mod 16 * 16 + x mod N mod 16 = idx" by simp
        with P show False by simp
      qed
    qed
    then show "\<exists>t'. write_output_body N m_tile n_tile idx t = Inr t' \<and> ?I (Suc idx) t'"
      using t' I by simp
  qed
  then obtain t where t: "for_loop 256 (write_output_body N m_tile n_tile) s = Inr t"
      "result_updated ?D (?P 256) s t" by blast
  have "?P 256 = (\<lambda>x. x div N div 16 = m_tile \<and> x mod N div 16 = n_tile)"
    by (simp add: P256)
  with t show ?thesis by (simp add: write_output_def PE_ROWS_def PE_COLS_def)
qed

lemma caches_loaded_cong:
  "caches_loaded acts wp sc K N MT NT s \<Longrightarrow> A_cache s' = A_cache s \<Longrightarrow> W_cache s' = W_cache s
   \<Longrightarrow> caches_loaded acts wp sc K N MT NT s'"
  by (simp add: caches_loaded_def)

lemma copy_to_work_props:
  assumes mt: "m_tile < 8" and nt: "n_tile < 32" and K: "K \<le> 4096"
  shows "\<exists>s'. copy_to_work K m_tile n_tile s = Inr s' \<and>
     A_cache s' = A_cache s \<and> W_cache s' = W_cache s \<and>
     result s' = result s \<and> result_writes s' = result_writes s \<and>
     (\<forall>i<16. \<forall>k<K. A_work s' (i, k) = A_cache s (m_tile, i, k)) \<and>
     (\<forall>j<16. \<forall>k<K. W_work s' (j, k) = W_cache s (n_tile, j, k))"
  by (simp add: copy_to_work_ok [OF assms])

lemma init_output_props:
  "\<exists>s'. init_output s = Inr s' \<and>
     A_cache s' = A_cache s \<and> W_cache s' = W_cache s \<and>
     A_work s' = A_work s \<and> W_work s' = W_work s \<and>
     result s' = result s \<and> result_writes s' = result_writes s \<and>
     (\<forall>i<16. \<forall>j<16. C_work s' (i, j) = 0)"
  by (simp add: init_output_ok)

lemma compute_props:
  assumes K: "K \<le> 4096"
  shows "\<exists>s'. compute K s = Inr s' \<and>
     A_cache s' = A_cache s \<and> W_cache s' = W_cache s \<and>
     A_work s' = A_work s \<and> W_work s' = W_work s \<and>
     result s' = result s \<and> result_writes s' = result_writes s \<and>
     (\<forall>i<16. \<forall>j<16. C_work s' (i, j) =
         C_work s (i, j) + (\<Sum>k\<leftarrow>[0..<K]. mac (A_work s (i, k)) (W_work s (j, k))))"
  by (simp add: compute_ok [OF K])

lemma tile_body_ok:
  assumes mt: "m_tile < MT" "MT \<le> 8" and nt: "n_tile < NT" "NT \<le> 32" and K: "K \<le> 4096"
    and N: "n_tile * 16 + 16 \<le> N"
    and len: "(m_tile * 16 + 15) * N + n_tile * 16 + 15 < length (result s)"
    and cl: "caches_loaded acts wp sc K N MT NT s"
  shows "\<exists>s'. tile_body K N m_tile n_tile s = Inr s' \<and>
     result_updated (\<lambda>x. dot32 acts wp sc K N (x div N) (x mod N))
       (\<lambda>x. x div N div 16 = m_tile \<and> x mod N div 16 = n_tile) s s'"
proof -
  have mt8: "m_tile < 8" and nt32: "n_tile < 32" using mt nt by simp_all
  from copy_to_work_props [OF mt8 nt32 K] obtain s1 where s1:
    "copy_to_work K m_tile n_tile s = Inr s1"
    "A_cache s1 = A_cache s" "W_cache s1 = W_cache s"
    "result s1 = result s" "result_writes s1 = result_writes s"
    "\<forall>i<16. \<forall>k<K. A_work s1 (i, k) = A_cache s (m_tile, i, k)"
    "\<forall>j<16. \<forall>k<K. W_work s1 (j, k) = W_cache s (n_tile, j, k)"
    by blast
  from init_output_props [of s1] obtain s2 where s2:
    "init_output s1 = Inr s2"
    "A_cache s2 = A_cache s1" "W_cache s2 = W_cache s1"
    "A_work s2 = A_work s1" "W_work s2 = W_work s1"
    "result s2 = result s1" "result_writes s2 = result_writes s1"
    "\<forall>i<16. \<forall>j<16. C_work s2 (i, j) = 0"
    by blast
  from compute_props [OF K, of s2] obtain s3 where s3:
    "compute K s2 = Inr s3"
    "A_cache s3 = A_cache s2" "W_cache s3 = W_cache s2"
    "A_work s3 = A_work s2" "W_work s3 = W_work s2"
    "result s3 = result s2" "result_writes s3 = result_writes s2"
    "\<forall>i<16. \<forall>j<16. C_work s3 (i, j) =
         C_work s2 (i, j) + (\<Sum>k\<leftarrow>[0..<K]. mac (A_work s2 (i, k)) (W_work s2 (j, k)))"
    by blast
  have run: "tile_body K N m_tile n_tile s = write_output N m_tile n_tile s3"
    unfolding tile_body_def by (simp only: s1(1) s2(1) s3(1) bind_err_Inr)
  have len3: "(m_tile * 16 + 15) * N + n_tile * 16 + 15 < length (result s3)"
    using len by (simp only: s3(6) s2(6) s1(4))
  from write_output_ok [OF N len3] obtain s' where s':
    "write_output N m_tile n_tile s3 = Inr s'"
    "result_updated (\<lambda>x. C_work s3 (x div N mod 16, x mod N mod 16))
       (\<lambda>x. x div N div 16 = m_tile \<and> x mod N div 16 = n_tile) s3 s'"
    by blast
  have cell: "C_work s3 (i, j) = dot32 acts wp sc K N (m_tile * 16 + i) (n_tile * 16 + j)"
    if ij: "i < 16" "j < 16" for i j
  proof -
    have "(\<Sum>k\<leftarrow>[0..<K]. mac (A_work s2 (i, k)) (W_work s2 (j, k)))
        = (\<Sum>k\<leftarrow>[0..<K]. mac (acts ! ((m_tile * 16 + i) * K + k)) (deq_at wp sc N k (n_tile * 16 + j)))"
    proof (intro arg_cong [where f = sum_list] map_cong refl)
      fix k assume "k \<in> set [0..<K]"
      then have k: "k < K" by simp
      have "A_work s2 (i, k) = acts ! ((m_tile * 16 + i) * K + k)"
        using s2(4) s1(6) cl mt(1) ij(1) k by (simp add: caches_loaded_def)
      moreover have "W_work s2 (j, k) = deq_at wp sc N k (n_tile * 16 + j)"
        using s2(5) s1(7) cl nt(1) ij(2) k by (simp add: caches_loaded_def)
      ultimately show "mac (A_work s2 (i, k)) (W_work s2 (j, k))
         = mac (acts ! ((m_tile * 16 + i) * K + k)) (deq_at wp sc N k (n_tile * 16 + j))"
        by simp
    qed
    then show ?thesis using ij s3(8) s2(8) by (simp add: dot32_def)
  qed
  have "result_updated (\<lambda>x. dot32 acts wp sc K N (x div N) (x mod N))
       (\<lambda>x. x div N div 16 = m_tile \<and> x mod N div 16 = n_tile) s s'"
  proof (rule result_updated_cong [OF s'(2)])
    fix x :: nat
    assume "x div N div 16 = m_tile \<and> x mod N div 16 = n_tile"
    then have "x div N = m_tile * 16 + x div N mod 16" "x mod N = n_tile * 16 + x mod N mod 16"
      by auto
    moreover have "C_work s3 (x div N mod 16, x mod N mod 16)
       = dot32 acts wp sc K N (m_tile * 16 + x div N mod 16) (n_tile * 16 + x mod N mod 16)"
      by (rule cell) simp_all
    ultimately show "C_work s3 (x div N mod 16, x mod N mod 16) = dot32 acts wp sc K N (x div N) (x mod N)"
      by simp
  next
    show "A_cache s3 = A_cache s" by (simp only: s3 s2 s1)
    show "W_cache s3 = W_cache s" by (simp only: s3 s2 s1)
    show "result s3 = result s" by (simp only: s3 s2 s1)
    show "result_writes s3 = result_writes s" by (simp only: s3 s2 s1)
  qed
  with run s'(1) show ?thesis by simp
qed

lemma result_updated_frame:
  assumes "result_updated D P s s'"
  shows "A_cache s' = A_cache s" "W_cache s' = W_cache s" "length (result s') = length (result s)"
  using assms by (simp_all add: result_updated_def)

lemma n_loop_ok:
  assumes mt: "m_tile < MT" "MT \<le> 8" and NT: "NT \<le> 32" and K: "K \<le> 4096"
    and N: "16 * NT \<le> N"
    and len: "\<forall>m<16 * MT. \<forall>n<16 * NT. m * N + n < length (result s)"
    and cl: "caches_loaded acts wp sc K N MT NT s"
  shows "\<exists>s'. for_loop NT (tile_body K N m_tile) s = Inr s' \<and>
     result_updated (\<lambda>x. dot32 acts wp sc K N (x div N) (x mod N))
       (\<lambda>x. x div N div 16 = m_tile \<and> x mod N div 16 < NT) s s'"
proof -
  let ?D = "\<lambda>x. dot32 acts wp sc K N (x div N) (x mod N)"
  let ?I = "\<lambda>nt t. result_updated ?D (\<lambda>x. x div N div 16 = m_tile \<and> x mod N div 16 < nt) s t"
  show ?thesis
  proof (rule for_loop_rule [where I = ?I and n = NT])
    show "?I 0 s" using result_updated_refl [of ?D s] by simp
  next
    fix nt t assume nt: "nt < NT" and I: "?I nt t"
    note fr = result_updated_frame [OF I]
    have cl': "caches_loaded acts wp sc K N MT NT t"
      using cl fr(1,2) by (rule caches_loaded_cong)
    have N': "nt * 16 + 16 \<le> N" using nt N by linarith
    have "m_tile * 16 + 15 < 16 * MT" "nt * 16 + 15 < 16 * NT" using mt(1) nt by linarith+
    then have "(m_tile * 16 + 15) * N + (nt * 16 + 15) < length (result s)" using len by blast
    then have len': "(m_tile * 16 + 15) * N + nt * 16 + 15 < length (result t)"
      using fr(3) by (simp add: add.assoc)
    from tile_body_ok [OF mt nt NT K N' len' cl']
    obtain t' where t': "tile_body K N m_tile nt t = Inr t'"
      "result_updated ?D (\<lambda>x. x div N div 16 = m_tile \<and> x mod N div 16 = nt) t t'"
      by blast
    have "?I (Suc nt) t'"
      by (rule result_updated_trans [OF I t'(2)]) auto
    with t'(1) show "\<exists>t'. tile_body K N m_tile nt t = Inr t' \<and> ?I (Suc nt) t'" by blast
  qed
qed

lemma m_loop_ok:
  assumes MT: "MT \<le> 8" and NT: "NT \<le> 32" and K: "K \<le> 4096"
    and N: "16 * NT \<le> N"
    and len: "\<forall>m<16 * MT. \<forall>n<16 * NT. m * N + n < length (result s)"
    and cl: "caches_loaded acts wp sc K N MT NT s"
  shows "\<exists>s'. m_loop MT NT K N s = Inr s' \<and>
     result_updated (\<lambda>x. dot32 acts wp sc K N (x div N) (x mod N))
       (\<lambda>x. x div N < 16 * MT \<and> x mod N < 16 * NT) s s'"
proof -
  let ?D = "\<lambda>x. dot32 acts wp sc K N (x div N) (x mod N)"
  let ?I = "\<lambda>mt t. result_updated ?D (\<lambda>x. x div N div 16 < mt \<and> x mod N div 16 < NT) s t"
  have "\<exists>t. for_loop MT (\<lambda>m_tile. for_loop NT (tile_body K N m_tile)) s = Inr t \<and> ?I MT t"
  proof (rule for_loop_rule [where I = ?I and n = MT])
    show "?I 0 s" using result_updated_refl [of ?D s] by simp
  next
    fix mt t assume mt: "mt < MT" and I: "?I mt t"
    note fr = result_updated_frame [OF I]
    have cl': "caches_loaded acts wp sc K N MT NT t"
      using cl fr(1,2) by (rule caches_loaded_cong)
    have len': "\<forall>m<16 * MT. \<forall>n<16 * NT. m * N + n < length (result t)"
      using len fr(3) by simp
    from n_loop_ok [OF mt MT NT K N len' cl']
    obtain t' where t': "for_loop NT (tile_body K N mt) t = Inr t'"
      "result_updated ?D (\<lambda>x. x div N div 16 = mt \<and> x mod N div 16 < NT) t t'"
      by blast
    have "?I (Suc mt) t'"
      by (rule result_updated_trans [OF I t'(2)]) auto
    with t'(1) show "\<exists>t'. for_loop NT (tile_body K N mt) t = Inr t' \<and> ?I (Suc mt) t'" by blast
  qed
  moreover have "(\<lambda>x. x div N div 16 < MT \<and> x mod N div 16 < NT)
     = (\<lambda>x. x div N < 16 * MT \<and> x mod N < 16 * NT)"
    by (simp add: div_less_iff_less_mult mult.commute)
  ultimately show ?thesis by (simp add: m_loop_def)
qed

lemma kernel_general:
  assumes MT: "M div 16 \<le> 8" and NT: "N div 16 \<le> 32" and K: "K \<le> 4096"
    and la: "16 * (M div 16) * K \<le> length acts"
    and lw: "\<forall>k<K. \<forall>n<16 * (N div 16). (k * N + n) div 2 < length wp \<and> (k * N + n) div 16 < length sc"
    and lr: "\<forall>m<16 * (M div 16). \<forall>n<16 * (N div 16). m * N + n < length (result s)"
  shows "\<exists>s'. SystolicArrayKernel acts wp sc M K N s = Inr s' \<and>
     length (result s') = length (result s) \<and>
     (\<forall>x<length (result s). result s' ! x =
        (if x div N < 16 * (M div 16) \<and> x mod N < 16 * (N div 16)
         then dot32 acts wp sc K N (x div N) (x mod N) else result s ! x)) \<and>
     (\<forall>x. count_list (result_writes s') x = count_list (result_writes s) x +
        (if x div N < 16 * (M div 16) \<and> x mod N < 16 * (N div 16) then 1 else 0))"
proof -
  let ?MT = "M div 16" and ?NT = "N div 16"
  define s1 where "s1 = s\<lparr>A_cache := \<lambda>(t, i, k). if t < ?MT \<and> i < 16 \<and> k < K
                          then acts ! ((t * 16 + i) * K + k) else A_cache s (t, i, k)\<rparr>"
  define s2 where "s2 = s1\<lparr>W_cache := \<lambda>(t, j, k). if t < ?NT \<and> j < 16 \<and> k < K
                          then deq_at wp sc N k (t * 16 + j) else W_cache s1 (t, j, k)\<rparr>"
  have p1: "load_all_act acts ?MT K s = Inr s1"
    unfolding s1_def by (rule load_all_act_ok [OF K MT la])
  have p2: "load_all_wgt wp sc ?NT K N s1 = Inr s2"
    unfolding s2_def by (rule load_all_wgt_ok [OF K NT lw])
  have run: "SystolicArrayKernel acts wp sc M K N s = m_loop ?MT ?NT K N s2"
    by (simp add: SystolicArrayKernel_def Let_def PE_ROWS_def PE_COLS_def p1 p2)
  have cl: "caches_loaded acts wp sc K N ?MT ?NT s2"
    by (simp add: caches_loaded_def s2_def s1_def)
  have fr: "result s2 = result s" "result_writes s2 = result_writes s"
    by (simp_all add: s2_def s1_def)
  have N: "16 * ?NT \<le> N" by simp
  have lr': "\<forall>m<16 * ?MT. \<forall>n<16 * ?NT. m * N + n < length (result s2)"
    using lr fr by simp
  from m_loop_ok [OF MT NT K N lr' cl] obtain s' where s':
    "m_loop ?MT ?NT K N s2 = Inr s'"
    "result_updated (\<lambda>x. dot32 acts wp sc K N (x div N) (x mod N))
       (\<lambda>x. x div N < 16 * ?MT \<and> x mod N < 16 * ?NT) s2 s'"
    by blast
  show ?thesis
    using run s' fr unfolding result_updated_def by simp
qed

section \<open>The reference model computes the dot products\<close>

lemma ref_k_body_eq:
  assumes "m * K + k < length act" "(k * N + n) div 2 < length wp" "(k * N + n) div 16 < length sc"
  shows "ref_k_body act wp sc K N m n k acc = Inr (acc + mac (act ! (m * K + k)) (deq_at wp sc N k n))"
  unfolding ref_k_body_def deq_at_def Let_def GROUP_SIZE_def odd_iff_mod_2_eq_one
  using assms by simp

lemma ref_k_loop:
  assumes la: "\<forall>k<K. m * K + k < length act"
    and lw: "\<forall>k<K. (k * N + n) div 2 < length wp \<and> (k * N + n) div 16 < length sc"
    and k': "k' \<le> K"
  shows "for_loop k' (ref_k_body act wp sc K N m n) acc =
     Inr (acc + (\<Sum>k\<leftarrow>[0..<k']. mac (act ! (m * K + k)) (deq_at wp sc N k n)))"
  using k'
proof (induction k')
  case 0
  show ?case by simp
next
  case (Suc k')
  then have k: "k' < K" by simp
  have "ref_k_body act wp sc K N m n k' acc' =
      Inr (acc' + mac (act ! (m * K + k')) (deq_at wp sc N k' n))" for acc'
    using la lw k by (intro ref_k_body_eq) auto
  then show ?case using Suc.IH k by (simp add: add.assoc)
qed

lemma ref_n_body_eq:
  assumes la: "\<forall>k<K. m * K + k < length act"
    and lw: "\<forall>k<K. (k * N + n) div 2 < length wp \<and> (k * N + n) div 16 < length sc"
    and lo: "m * N + n < length out"
  shows "ref_n_body act wp sc K N m n out = Inr (out[m * N + n := dot32 act wp sc K N m n])"
  using lo by (simp add: ref_n_body_def ref_k_loop [OF la lw order_refl] dot32_def)

lemma ref_n_loop:
  assumes la: "\<forall>k<K. m * K + k < length act"
    and lw: "\<forall>k<K. \<forall>n<N. (k * N + n) div 2 < length wp \<and> (k * N + n) div 16 < length sc"
    and lo: "m * N + N \<le> length out"
  shows "\<exists>out'. for_loop N (ref_n_body act wp sc K N m) out = Inr out' \<and>
     out_updated (\<lambda>x. dot32 act wp sc K N (x div N) (x mod N))
       (\<lambda>x. x div N = m \<and> x mod N < N) out out'"
proof -
  let ?D = "\<lambda>x. dot32 act wp sc K N (x div N) (x mod N)"
  let ?I = "\<lambda>n t. out_updated ?D (\<lambda>x. x div N = m \<and> x mod N < n) out t"
  show ?thesis
  proof (rule for_loop_rule [where I = ?I and n = N])
    show "?I 0 out" by (simp add: out_updated_def)
  next
    fix n t assume n: "n < N" and I: "?I n t"
    have lw': "\<forall>k<K. (k * N + n) div 2 < length wp \<and> (k * N + n) div 16 < length sc"
      using lw n by blast
    have lt: "length t = length out" using I by (simp add: out_updated_def)
    have lo': "m * N + n < length t" using lo n lt by linarith
    have step: "ref_n_body act wp sc K N m n t = Inr (t[m * N + n := dot32 act wp sc K N m n])"
      by (rule ref_n_body_eq [OF la lw' lo'])
    have eq: "\<And>x. (m * N + n = x) = (x div N = m \<and> x mod N = n)"
      using cell_eq_iff [OF n, of _ m] by (simp add: eq_commute)
    have "?I (Suc n) (t[m * N + n := dot32 act wp sc K N m n])"
      using I unfolding out_updated_def
      by (auto simp: nth_list_update eq less_Suc_eq)
    with step show "\<exists>t'. ref_n_body act wp sc K N m n t = Inr t' \<and> ?I (Suc n) t'" by blast
  qed
qed

lemma cpu_reference_general:
  assumes la: "M * K \<le> length act"
    and lw: "\<forall>k<K. \<forall>n<N. (k * N + n) div 2 < length wp \<and> (k * N + n) div 16 < length sc"
  shows "\<exists>out'. cpu_reference act wp sc out M K N = Inr out' \<and> length out' = M * N \<and>
     (\<forall>x<M * N. out' ! x = dot32 act wp sc K N (x div N) (x mod N))"
proof -
  let ?D = "\<lambda>x. dot32 act wp sc K N (x div N) (x mod N)"
  let ?out0 = "resize_vec (M * N) 0 out"
  have l0: "length ?out0 = M * N" by (simp add: resize_vec_def)
  let ?I = "\<lambda>m t. out_updated ?D (\<lambda>x. x div N < m \<and> x mod N < N) ?out0 t"
  have "\<exists>t. for_loop M (\<lambda>m. for_loop N (ref_n_body act wp sc K N m)) ?out0 = Inr t \<and> ?I M t"
  proof (rule for_loop_rule [where I = ?I and n = M])
    show "?I 0 ?out0" by (simp add: out_updated_def)
  next
    fix m t assume m: "m < M" and I: "?I m t"
    have lt: "length t = M * N" using I l0 by (simp add: out_updated_def)
    have "Suc m * K \<le> M * K" using m by (intro mult_le_mono1) simp
    then have la': "\<forall>k<K. m * K + k < length act" using la by auto
    have "Suc m * N \<le> M * N" using m by (intro mult_le_mono1) simp
    then have lo: "m * N + N \<le> length t" using lt by simp
    from ref_n_loop [OF la' lw lo] obtain t' where t':
      "for_loop N (ref_n_body act wp sc K N m) t = Inr t'"
      "out_updated ?D (\<lambda>x. x div N = m \<and> x mod N < N) t t'" by blast
    have "?I (Suc m) t'"
      using I t'(2) unfolding out_updated_def by (auto simp: less_Suc_eq)
    with t'(1) show "\<exists>t'. for_loop N (ref_n_body act wp sc K N m) t = Inr t' \<and> ?I (Suc m) t'"
      by blast
  qed
  then obtain t where t: "cpu_reference act wp sc out M K N = Inr t" "?I M t"
    by (auto simp: cpu_reference_def)
  have "x div N < M \<and> x mod N < N" if "x < M * N" for x
  proof -
    have "0 < N" using that by (cases N) auto
    then show ?thesis using that by (simp add: less_mult_imp_div_less)
  qed
  with t(2) l0 have "length t = M * N" "\<forall>x<M * N. t ! x = ?D x"
    by (simp_all add: out_updated_def)
  with t(1) show ?thesis by blast
qed

section \<open>Index arithmetic and exact accumulation\<close>

lemma div_less_of_dvd:
  fixes x T d :: nat
  assumes "x < T" "d dvd T" "0 < d"
  shows "x div d < T div d"
proof -
  have "T div d * d = T" using assms(2) by simp
  then have "x < T div d * d" using assms(1) by simp
  then show ?thesis by (simp add: less_mult_imp_div_less)
qed

lemma flat_index_less:
  fixes k K n N :: nat
  assumes "k < K" "n < N"
  shows "k * N + n < K * N"
proof -
  have "Suc k * N \<le> K * N" using assms(1) by (intro mult_le_mono1) simp
  then show ?thesis using assms(2) by simp
qed

lemma weight_indices_ok:
  assumes "16 dvd K * N" "length wp = K * N div 2" "length sc = K * N div 16" "k < K" "n < N"
  shows "(k * N + n) div 2 < length wp \<and> (k * N + n) div 16 < length sc"
proof -
  have lt: "k * N + n < K * N" using assms(4,5) by (rule flat_index_less)
  have "(2::nat) dvd 16" by simp
  then have "2 dvd K * N" using assms(1) by (rule dvd_trans)
  then show ?thesis using lt assms(1,2,3) by (simp add: div_less_of_dvd)
qed

lemma sint_scast_8_32: "sint (scast (a :: 8 word) :: 32 word) = sint a"
  by (rule sint_up_scast) (simp add: is_up)

lemma sint_mac: "sint (mac a w) = sint a * sint w"
proof -
  have a: "- 128 \<le> sint a" "sint a < 128" using sint_ge [of a] sint_lt [of a] by simp_all
  have w: "- 128 \<le> sint w" "sint w < 128" using sint_ge [of w] sint_lt [of w] by simp_all
  have "\<bar>sint a * sint w\<bar> \<le> 128 * 128"
    unfolding abs_mult using a w by (intro mult_mono) auto
  then have "- (2 ^ 31) \<le> sint a * sint w" "sint a * sint w < 2 ^ 31" by simp_all
  then have "signed_take_bit 31 (sint a * sint w) = sint a * sint w"
    by (rule signed_take_bit_int_eq_self)
  then show ?thesis by (simp add: mac_def sint_word_ariths sint_scast_8_32)
qed

lemma abs_sint_mac: "\<bar>sint (mac a w)\<bar> \<le> 16384"
proof -
  have a: "- 128 \<le> sint a" "sint a < 128" using sint_ge [of a] sint_lt [of a] by simp_all
  have w: "- 128 \<le> sint w" "sint w < 128" using sint_ge [of w] sint_lt [of w] by simp_all
  have "\<bar>sint a * sint w\<bar> \<le> 128 * 128"
    unfolding abs_mult using a w by (intro mult_mono) auto
  then show ?thesis by (simp add: sint_mac)
qed

lemma sint_sum_mac:
  assumes "n \<le> 4096"
  shows "sint (\<Sum>k\<leftarrow>[0..<n]. mac (f k) (g k)) = (\<Sum>k\<leftarrow>[0..<n]. sint (f k) * sint (g k))
       \<and> \<bar>\<Sum>k\<leftarrow>[0..<n]. sint (f k) * sint (g k)\<bar> \<le> int n * 16384"
  using assms
proof (induction n)
  case 0
  show ?case by simp
next
  case (Suc n)
  let ?S = "\<Sum>k\<leftarrow>[0..<n]. sint (f k) * sint (g k)"
  let ?t = "sint (f n) * sint (g n)"
  from Suc have IH: "sint (\<Sum>k\<leftarrow>[0..<n]. mac (f k) (g k)) = ?S" "\<bar>?S\<bar> \<le> int n * 16384"
    and n: "n < 4096" by simp_all
  have t: "\<bar>?t\<bar> \<le> 16384" using abs_sint_mac [of "f n" "g n"] by (simp add: sint_mac)
  have b: "\<bar>?S + ?t\<bar> \<le> int (Suc n) * 16384" using IH(2) t by (simp add: algebra_simps)
  have "int (Suc n) * 16384 \<le> 4096 * 16384" using n by simp
  with b have "- (2 ^ 31) \<le> ?S + ?t" "?S + ?t < 2 ^ 31" by simp_all
  then have "signed_take_bit 31 (?S + ?t) = ?S + ?t" by (rule signed_take_bit_int_eq_self)
  then have "sint ((\<Sum>k\<leftarrow>[0..<n]. mac (f k) (g k)) + mac (f n) (g n)) = ?S + ?t"
    by (simp add: sint_word_ariths IH(1) sint_mac)
  with b show ?case by simp
qed

section \<open>Engine and reference model on valid input\<close>

lemma kernel_valid:
  assumes M: "16 dvd M" "M \<le> 128" and N: "16 dvd N" "N \<le> 512" and K: "K \<le> 4096"
    and la: "length acts = M * K" and lw: "length wp = K * N div 2"
    and ls: "length sc = K * N div 16" and lr: "length (result s) = M * N"
  shows "\<exists>s'. SystolicArrayKernel acts wp sc M K N s = Inr s' \<and>
     length (result s') = M * N \<and>
     (\<forall>x<M * N. result s' ! x = dot32 acts wp sc K N (x div N) (x mod N)) \<and>
     (\<forall>x. count_list (result_writes s') x = count_list (result_writes s) x +
        (if x < M * N then 1 else 0))"
proof -
  have M16: "16 * (M div 16) = M" and N16: "16 * (N div 16) = N" using M(1) N(1) by simp_all
  have MT: "M div 16 \<le> 8" using M(2) by simp
  have NT: "N div 16 \<le> 32" using N(2) by simp
  have la': "16 * (M div 16) * K \<le> length acts" using la M16 by simp
  have dv: "16 dvd K * N" using N(1) by simp
  have lw': "\<forall>k<K. \<forall>n<16 * (N div 16). (k * N + n) div 2 < length wp \<and> (k * N + n) div 16 < length sc"
    unfolding N16 using weight_indices_ok [OF dv lw ls] by blast
  have lr': "\<forall>m<16 * (M div 16). \<forall>n<16 * (N div 16). m * N + n < length (result s)"
    unfolding M16 N16 lr using flat_index_less by blast
  have P: "(x div N < M \<and> x mod N < N) = (x < M * N)" for x
  proof (cases "N = 0")
    case True then show ?thesis by simp
  next
    case False
    then show ?thesis by (simp add: div_less_iff_less_mult)
  qed
  from kernel_general [OF MT NT K la' lw' lr'] show ?thesis
    unfolding M16 N16 P lr by auto
qed

text \<open>
  C1. For every valid input (\<open>M\<close>, \<open>K\<close>, \<open>N\<close> divisible by 16, \<open>M \<le> 128\<close>,
  \<open>K \<le> 4096\<close>, \<open>N \<le> 512\<close>, buffers of the contracted lengths) the engine and the
  reference model both run to completion, and the output matrix written by
  \<open>SystolicArrayKernel\<close> equals the one computed by \<open>cpu_reference\<close>, element for
  element, whatever the static arrays and the two output buffers held before.
\<close>

theorem engine_equals_reference:
  assumes "PE_ROWS dvd M" "PE_ROWS dvd K" "PE_COLS dvd N"
    and "M \<le> M_DIM" "K \<le> K_DIM" "N \<le> N_DIM"
    and "length activations = M * K"
    and "length weights_packed = K * N div 2"
    and "length scales = K * N div GROUP_SIZE"
    and "length (result s) = M * N"
  shows "\<exists>s' out'. SystolicArrayKernel activations weights_packed scales M K N s = Inr s' \<and>
     cpu_reference activations weights_packed scales out M K N = Inr out' \<and>
     result s' = out'"
proof -
  have a: "16 dvd M" "M \<le> 128" "16 dvd N" "N \<le> 512" "K \<le> 4096"
    "length weights_packed = K * N div 2" "length scales = K * N div 16"
    using assms by (simp_all add: PE_ROWS_def PE_COLS_def M_DIM_def N_DIM_def K_DIM_def GROUP_SIZE_def)
  from kernel_valid [OF a(1-5) assms(7) a(6,7) assms(10)] obtain s' where s':
    "SystolicArrayKernel activations weights_packed scales M K N s = Inr s'"
    "length (result s') = M * N"
    "\<forall>x<M * N. result s' ! x = dot32 activations weights_packed scales K N (x div N) (x mod N)"
    by blast
  have dv: "16 dvd K * N" using a(3) by simp
  have lw: "\<forall>k<K. \<forall>n<N. (k * N + n) div 2 < length weights_packed
                      \<and> (k * N + n) div 16 < length scales"
    using weight_indices_ok [OF dv a(6,7)] by blast
  have la: "M * K \<le> length activations" using assms(7) by simp
  from cpu_reference_general [OF la lw, of out] obtain out' where out':
    "cpu_reference activations weights_packed scales out M K N = Inr out'"
    "length out' = M * N"
    "\<forall>x<M * N. out' ! x = dot32 activations weights_packed scales K N (x div N) (x mod N)"
    by blast
  have "result s' = out'"
    by (rule nth_equalityI) (simp_all add: s'(2,3) out'(2,3))
  with s'(1) out'(1) show ?thesis by blast
qed

theorem engine_equals_reference_witness:
  "PE_ROWS dvd (16::nat) \<and> PE_COLS dvd (16::nat) \<and> (16::nat) \<le> M_DIM \<and> (16::nat) \<le> K_DIM
   \<and> (16::nat) \<le> N_DIM
   \<and> length (replicate 256 (1::i8)) = 16 * 16
   \<and> length (replicate 128 (0x21::u8)) = 16 * 16 div 2
   \<and> length (replicate 16 (0::u8)) = 16 * 16 div GROUP_SIZE
   \<and> length (result (initial_state (replicate 256 0))) = 16 * 16
   \<and> (\<exists>s' out'. SystolicArrayKernel (replicate 256 1) (replicate 128 0x21) (replicate 16 0) 16 16 16
                    (initial_state (replicate 256 0)) = Inr s' \<and>
         cpu_reference (replicate 256 1) (replicate 128 0x21) (replicate 16 0) [] 16 16 16 = Inr out' \<and>
         result s' = out')"
proof -
  have h: "PE_ROWS dvd (16::nat)" "PE_COLS dvd (16::nat)" "(16::nat) \<le> M_DIM" "(16::nat) \<le> K_DIM"
    "(16::nat) \<le> N_DIM"
    "length (replicate 256 (1::i8)) = 16 * 16"
    "length (replicate 128 (0x21::u8)) = 16 * 16 div 2"
    "length (replicate 16 (0::u8)) = 16 * 16 div GROUP_SIZE"
    "length (result (initial_state (replicate 256 0))) = 16 * 16"
    by (simp_all add: PE_ROWS_def PE_COLS_def M_DIM_def N_DIM_def K_DIM_def GROUP_SIZE_def
        initial_state_def)
  from engine_equals_reference [OF h(1) h(1) h(2) h(3) h(4) h(5) h(6) h(7) h(8) h(9), of "[]"] h
  show ?thesis by blast
qed

lemma sint_dot32:
  assumes "K \<le> 4096"
  shows "sint (dot32 act wp sc K N m n) =
     (\<Sum>k\<leftarrow>[0..<K]. sint (act ! (m * K + k)) * sint (deq_at wp sc N k n))"
  using sint_sum_mac [OF assms, of "\<lambda>k. act ! (m * K + k)" "\<lambda>k. deq_at wp sc N k n"]
  by (simp add: dot32_def)

text \<open>
  C5. For every valid input and every \<open>m < M\<close>, \<open>n < N\<close>, \<open>cpu_reference\<close> returns an
  output vector of length \<open>M * N\<close> whose entry \<open>m * N + n\<close> is the integer sum over
  \<open>k < K\<close> of \<open>activation[m * K + k]\<close> times the dequantized weight at flattened index
  \<open>k * N + n\<close> (nibble chosen by the parity of the index, scale of group
  \<open>(k * N + n) / GROUP_SIZE\<close>).
\<close>

theorem cpu_reference_computes_dot_products:
  assumes "K \<le> K_DIM" "GROUP_SIZE dvd K * N"
    and "length act = M * K"
    and "length wgt_packed = K * N div 2"
    and "length scales = K * N div GROUP_SIZE"
  shows "\<exists>out'. cpu_reference act wgt_packed scales out M K N = Inr out' \<and>
     length out' = M * N \<and>
     (\<forall>m<M. \<forall>n<N. sint (out' ! (m * N + n)) =
        (\<Sum>k\<leftarrow>[0..<K]. sint (act ! (m * K + k)) *
           sint (unpack_dequantize_weight (wgt_packed ! ((k * N + n) div 2)) (odd (k * N + n))
                   (scales ! ((k * N + n) div GROUP_SIZE)))))"
proof -
  have a: "K \<le> 4096" "16 dvd K * N" "length scales = K * N div 16"
    using assms by (simp_all add: K_DIM_def GROUP_SIZE_def)
  have lw: "\<forall>k<K. \<forall>n<N. (k * N + n) div 2 < length wgt_packed
                      \<and> (k * N + n) div 16 < length scales"
    using weight_indices_ok [OF a(2) assms(4) a(3)] by blast
  have la: "M * K \<le> length act" using assms(3) by simp
  from cpu_reference_general [OF la lw, of out] obtain out' where out':
    "cpu_reference act wgt_packed scales out M K N = Inr out'"
    "length out' = M * N"
    "\<forall>x<M * N. out' ! x = dot32 act wgt_packed scales K N (x div N) (x mod N)"
    by blast
  have "sint (out' ! (m * N + n)) =
        (\<Sum>k\<leftarrow>[0..<K]. sint (act ! (m * K + k)) *
           sint (unpack_dequantize_weight (wgt_packed ! ((k * N + n) div 2)) (odd (k * N + n))
                   (scales ! ((k * N + n) div GROUP_SIZE))))"
    if mn: "m < M" "n < N" for m n
  proof -
    have "m * N + n < M * N" using mn by (rule flat_index_less)
    then have "out' ! (m * N + n) = dot32 act wgt_packed scales K N m n"
      using out'(3) cell_div_mod [OF mn(2), of m] by simp
    then show ?thesis by (simp add: sint_dot32 [OF a(1)] deq_at_def)
  qed
  with out'(1,2) show ?thesis by blast
qed

theorem cpu_reference_computes_dot_products_witness:
  "(16::nat) \<le> K_DIM \<and> GROUP_SIZE dvd (16::nat) * 16
   \<and> length (replicate 256 (1::i8)) = 16 * 16
   \<and> length (replicate 128 (0x21::u8)) = 16 * 16 div 2
   \<and> length (replicate 16 (0::u8)) = 16 * 16 div GROUP_SIZE
   \<and> (\<exists>out'. cpu_reference (replicate 256 1) (replicate 128 0x21) (replicate 16 0) [] 16 16 16 = Inr out' \<and>
     length out' = 16 * 16 \<and>
     (\<forall>m<16. \<forall>n<16. sint (out' ! (m * 16 + n)) =
        (\<Sum>k\<leftarrow>[0..<16]. sint (replicate 256 (1::i8) ! (m * 16 + k)) *
           sint (unpack_dequantize_weight (replicate 128 0x21 ! ((k * 16 + n) div 2)) (odd (k * 16 + n))
                   (replicate 16 0 ! ((k * 16 + n) div GROUP_SIZE))))))"
proof -
  have h: "(16::nat) \<le> K_DIM" "GROUP_SIZE dvd (16::nat) * 16"
    "length (replicate 256 (1::i8)) = 16 * 16"
    "length (replicate 128 (0x21::u8)) = 16 * 16 div 2"
    "length (replicate 16 (0::u8)) = 16 * 16 div GROUP_SIZE"
    by (simp_all add: K_DIM_def GROUP_SIZE_def)
  from cpu_reference_computes_dot_products [OF h, of "[]"] h show ?thesis by blast
qed

text \<open>
  C10. Under the stated precondition every index the kernel uses is in bounds (the run
  returns \<open>Inr\<close>: no access was outside a cache extent or a buffer), and every output
  element \<open>result[m * N + n]\<close> with \<open>m < M\<close>, \<open>n < N\<close> is stored to exactly once;
  no other index of \<open>result\<close> is stored to.
\<close>

theorem kernel_in_bounds_and_writes_once:
  assumes "PE_ROWS dvd M" "M \<le> M_DIM" "PE_COLS dvd N" "N \<le> N_DIM" "K \<le> K_DIM"
    and "length activations = M * K"
    and "length weights_packed = K * N div 2"
    and "length scales = K * N div GROUP_SIZE"
    and "length (result s) = M * N"
    and "result_writes s = []"
  shows "\<exists>s'. SystolicArrayKernel activations weights_packed scales M K N s = Inr s' \<and>
     (\<forall>m<M. \<forall>n<N. count_list (result_writes s') (m * N + n) = 1) \<and>
     (\<forall>x. M * N \<le> x \<longrightarrow> count_list (result_writes s') x = 0)"
proof -
  have a: "16 dvd M" "M \<le> 128" "16 dvd N" "N \<le> 512" "K \<le> 4096"
    "length weights_packed = K * N div 2" "length scales = K * N div 16"
    using assms by (simp_all add: PE_ROWS_def PE_COLS_def M_DIM_def N_DIM_def K_DIM_def GROUP_SIZE_def)
  from kernel_valid [OF a(1-5) assms(6) a(6,7) assms(9)] obtain s' where s':
    "SystolicArrayKernel activations weights_packed scales M K N s = Inr s'"
    "\<forall>x. count_list (result_writes s') x = count_list (result_writes s) x +
        (if x < M * N then 1 else 0)"
    by blast
  have c: "count_list (result_writes s') x = (if x < M * N then 1 else 0)" for x
    using s'(2) assms(10) by simp
  have "count_list (result_writes s') (m * N + n) = 1" if "m < M" "n < N" for m n
    using c flat_index_less [OF that] by simp
  moreover have "count_list (result_writes s') x = 0" if "M * N \<le> x" for x
    using c that by simp
  ultimately show ?thesis using s'(1) by blast
qed

theorem kernel_in_bounds_and_writes_once_witness:
  "PE_ROWS dvd (16::nat) \<and> (16::nat) \<le> M_DIM \<and> PE_COLS dvd (16::nat) \<and> (16::nat) \<le> N_DIM
   \<and> (16::nat) \<le> K_DIM
   \<and> length (replicate 256 (1::i8)) = 16 * 16
   \<and> length (replicate 128 (0x21::u8)) = 16 * 16 div 2
   \<and> length (replicate 16 (0::u8)) = 16 * 16 div GROUP_SIZE
   \<and> length (result (initial_state (replicate 256 0))) = 16 * 16
   \<and> result_writes (initial_state (replicate 256 0)) = []
   \<and> (\<exists>s'. SystolicArrayKernel (replicate 256 1) (replicate 128 0x21) (replicate 16 0) 16 16 16
                    (initial_state (replicate 256 0)) = Inr s' \<and>
         (\<forall>m<16. \<forall>n<16. count_list (result_writes s') (m * 16 + n) = 1) \<and>
         (\<forall>x. 16 * 16 \<le> x \<longrightarrow> count_list (result_writes s') x = 0))"
proof -
  have h: "PE_ROWS dvd (16::nat)" "(16::nat) \<le> M_DIM" "PE_COLS dvd (16::nat)" "(16::nat) \<le> N_DIM"
    "(16::nat) \<le> K_DIM"
    "length (replicate 256 (1::i8)) = 16 * 16"
    "length (replicate 128 (0x21::u8)) = 16 * 16 div 2"
    "length (replicate 16 (0::u8)) = 16 * 16 div GROUP_SIZE"
    "length (result (initial_state (replicate 256 0))) = 16 * 16"
    "result_writes (initial_state (replicate 256 0)) = []"
    by (simp_all add: PE_ROWS_def PE_COLS_def M_DIM_def N_DIM_def K_DIM_def GROUP_SIZE_def
        initial_state_def)
  from kernel_in_bounds_and_writes_once [OF h] h show ?thesis by blast
qed

text \<open>
  C8. With \<open>K \<le> 4096\<close>, after any number \<open>k' \<le> K\<close> of reduction steps the running
  32-bit accumulator of \<open>cpu_reference\<close> (the local \<open>sum\<close>) and that of the engine's
  compute loop (\<open>C_work[i][j]\<close>, zeroed before the loop) hold, read as signed integers,
  the exact integer sum of the \<open>k'\<close> products so far: the 32-bit additions never wrap,
  for any int8 activations and any packed weights and scales.
\<close>

theorem accumulators_never_wrap:
  assumes "K \<le> K_DIM" "k' \<le> K"
    and "GROUP_SIZE dvd K * N"
    and "length act = M * K"
    and "length wgt_packed = K * N div 2"
    and "length scales = K * N div GROUP_SIZE"
    and "m < M" "n < N"
    and "i < PE_ROWS" "j < PE_COLS" "C_work s (i, j) = 0"
  shows "(\<exists>acc. for_loop k' (ref_k_body act wgt_packed scales K N m n) 0 = Inr acc \<and>
            sint acc = (\<Sum>k\<leftarrow>[0..<k']. sint (act ! (m * K + k)) *
               sint (unpack_dequantize_weight (wgt_packed ! ((k * N + n) div 2)) (odd (k * N + n))
                       (scales ! ((k * N + n) div GROUP_SIZE)))))
       \<and> (\<exists>s'. compute k' s = Inr s' \<and>
            sint (C_work s' (i, j)) = (\<Sum>k\<leftarrow>[0..<k']. sint (A_work s (i, k)) * sint (W_work s (j, k))))"
proof -
  have a: "K \<le> 4096" "16 dvd K * N" "length scales = K * N div 16" "i < 16" "j < 16"
    using assms by (simp_all add: K_DIM_def GROUP_SIZE_def PE_ROWS_def PE_COLS_def)
  have k': "k' \<le> 4096" using assms(2) a(1) by simp
  have lw: "\<forall>k<K. (k * N + n) div 2 < length wgt_packed \<and> (k * N + n) div 16 < length scales"
    using weight_indices_ok [OF a(2) assms(5) a(3) _ assms(8)] by blast
  have "Suc m * K \<le> M * K" using assms(7) by (intro mult_le_mono1) simp
  then have la: "\<forall>k<K. m * K + k < length act" using assms(4) by auto
  have "for_loop k' (ref_k_body act wgt_packed scales K N m n) 0 =
      Inr (\<Sum>k\<leftarrow>[0..<k']. mac (act ! (m * K + k)) (deq_at wgt_packed scales N k n))"
    using ref_k_loop [OF la lw assms(2), of 0] by simp
  moreover have "sint (\<Sum>k\<leftarrow>[0..<k']. mac (act ! (m * K + k)) (deq_at wgt_packed scales N k n)) =
      (\<Sum>k\<leftarrow>[0..<k']. sint (act ! (m * K + k)) *
               sint (unpack_dequantize_weight (wgt_packed ! ((k * N + n) div 2)) (odd (k * N + n))
                       (scales ! ((k * N + n) div GROUP_SIZE))))"
    using sint_sum_mac [OF k', of "\<lambda>k. act ! (m * K + k)" "\<lambda>k. deq_at wgt_packed scales N k n"]
    by (simp add: deq_at_def)
  moreover have "sint (C_work s (i, j) + (\<Sum>k\<leftarrow>[0..<k']. mac (A_work s (i, k)) (W_work s (j, k)))) =
      (\<Sum>k\<leftarrow>[0..<k']. sint (A_work s (i, k)) * sint (W_work s (j, k)))"
    using sint_sum_mac [OF k', of "\<lambda>k. A_work s (i, k)" "\<lambda>k. W_work s (j, k)"] assms(11)
    by simp
  ultimately show ?thesis
    using a(4,5) by (simp add: compute_ok [OF k'])
qed

theorem accumulators_never_wrap_witness:
  "(16::nat) \<le> K_DIM \<and> (16::nat) \<le> 16 \<and> GROUP_SIZE dvd (16::nat) * 16
   \<and> length (replicate 256 (127::i8)) = 16 * 16
   \<and> length (replicate 128 (0x88::u8)) = 16 * 16 div 2
   \<and> length (replicate 16 (2::u8)) = 16 * 16 div GROUP_SIZE
   \<and> (0::nat) < 16 \<and> (0::nat) < PE_ROWS \<and> (0::nat) < PE_COLS
   \<and> C_work (initial_state []) (0, 0) = 0
   \<and> (\<exists>acc. for_loop 16 (ref_k_body (replicate 256 127) (replicate 128 0x88) (replicate 16 2) 16 16 0 0) 0 = Inr acc \<and>
            sint acc = (\<Sum>k\<leftarrow>[0..<16]. sint (replicate 256 (127::i8) ! (0 * 16 + k)) *
               sint (unpack_dequantize_weight (replicate 128 0x88 ! ((k * 16 + 0) div 2)) (odd (k * 16 + 0))
                       (replicate 16 2 ! ((k * 16 + 0) div GROUP_SIZE)))))
   \<and> (\<exists>s'. compute 16 (initial_state []) = Inr s' \<and>
            sint (C_work s' (0, 0)) = (\<Sum>k\<leftarrow>[0..<16]. sint (A_work (initial_state []) (0, k))
                 * sint (W_work (initial_state []) (0, k))))"
proof -
  have h: "(16::nat) \<le> K_DIM" "(16::nat) \<le> 16" "GROUP_SIZE dvd (16::nat) * 16"
    "length (replicate 256 (127::i8)) = 16 * 16"
    "length (replicate 128 (0x88::u8)) = 16 * 16 div 2"
    "length (replicate 16 (2::u8)) = 16 * 16 div GROUP_SIZE"
    "(0::nat) < 16" "(0::nat) < 16" "(0::nat) < PE_ROWS" "(0::nat) < PE_COLS"
    "C_work (initial_state []) (0, 0) = 0"
    by (simp_all add: K_DIM_def GROUP_SIZE_def PE_ROWS_def PE_COLS_def initial_state_def)
  from accumulators_never_wrap [OF h] h show ?thesis by blast
qed

lemma kernel_partial_rows:
  assumes M: "M \<le> 128" and N: "16 dvd N" "N \<le> 512" and K: "K \<le> 4096"
    and la: "length acts = M * K" and lw: "length wp = K * N div 2"
    and ls: "length sc = K * N div 16" and lr: "length (result s) = M * N"
  shows "\<exists>s'. SystolicArrayKernel acts wp sc M K N s = Inr s' \<and>
     length (result s') = M * N \<and>
     (\<forall>m<M. \<forall>n<N. result s' ! (m * N + n) =
        (if m < 16 * (M div 16) then dot32 acts wp sc K N m n else result s ! (m * N + n)))"
proof -
  have N16: "16 * (N div 16) = N" using N(1) by simp
  have M16: "16 * (M div 16) \<le> M" by simp
  have MT: "M div 16 \<le> 8" using M by simp
  have NT: "N div 16 \<le> 32" using N(2) by simp
  have "16 * (M div 16) * K \<le> M * K" using M16 by (rule mult_le_mono1)
  then have la': "16 * (M div 16) * K \<le> length acts" using la by simp
  have dv: "16 dvd K * N" using N(1) by simp
  have lw': "\<forall>k<K. \<forall>n<16 * (N div 16). (k * N + n) div 2 < length wp \<and> (k * N + n) div 16 < length sc"
    unfolding N16 using weight_indices_ok [OF dv lw ls] by blast
  have lr': "\<forall>m<16 * (M div 16). \<forall>n<16 * (N div 16). m * N + n < length (result s)"
  proof (intro allI impI)
    fix m n assume "m < 16 * (M div 16)" "n < 16 * (N div 16)"
    then have "m < M" "n < N" using M16 N16 by simp_all
    then show "m * N + n < length (result s)" unfolding lr by (rule flat_index_less)
  qed
  from kernel_general [OF MT NT K la' lw' lr'] obtain s' where s':
    "SystolicArrayKernel acts wp sc M K N s = Inr s'"
    "length (result s') = length (result s)"
    "\<forall>x<length (result s). result s' ! x =
        (if x div N < 16 * (M div 16) \<and> x mod N < 16 * (N div 16)
         then dot32 acts wp sc K N (x div N) (x mod N) else result s ! x)"
    by blast
  have "result s' ! (m * N + n) =
        (if m < 16 * (M div 16) then dot32 acts wp sc K N m n else result s ! (m * N + n))"
    if mn: "m < M" "n < N" for m n
  proof -
    have "m * N + n < length (result s)" unfolding lr using mn by (rule flat_index_less)
    then show ?thesis
      using s'(3) cell_div_mod [OF mn(2), of m] mn(2) by (simp add: N16)
  qed
  with s'(1,2) lr show ?thesis by simp
qed

text \<open>
  C3 (the claim fails at \<open>M = 8\<close>). The kernel contains no check of its dimensions.
  With \<open>M = 8\<close>, which \<open>PE_ROWS = 16\<close> does not divide, \<open>K = 1\<close>, \<open>N = 16\<close> and buffers of
  the contracted lengths, the call is not rejected: it returns normally, having read
  all 16 weights and the scale in phase 2, and it leaves the output buffer as it was.
\<close>

theorem kernel_accepts_M_8:
  "\<not> PE_ROWS dvd (8::nat) \<and>
   (\<exists>s'. SystolicArrayKernel (replicate 8 1) (replicate 8 0x21) [0] 8 1 16
            (initial_state (replicate 128 7)) = Inr s' \<and> result s' = replicate 128 7)"
proof -
  have lr: "length (result (initial_state (replicate 128 7))) = 8 * 16"
    by (simp add: initial_state_def)
  from kernel_partial_rows [of 8 16 1 "replicate 8 1" "replicate 8 0x21" "[0]", OF _ _ _ _ _ _ _ lr]
  obtain s' where s':
    "SystolicArrayKernel (replicate 8 1) (replicate 8 0x21) [0] 8 1 16
            (initial_state (replicate 128 7)) = Inr s'"
    "length (result s') = 8 * 16"
    "\<forall>m<8. \<forall>n<16. result s' ! (m * 16 + n) = result (initial_state (replicate 128 7)) ! (m * 16 + n)"
    by auto
  have "result s' = replicate 128 7"
  proof (rule nth_equalityI)
    show "length (result s') = length (replicate 128 (7::i32))" using s'(2) by simp
  next
    fix x assume "x < length (result s')"
    then have x: "x < 128" using s'(2) by simp
    then have "x div 16 < 8" "x mod 16 < 16" by simp_all
    with s'(3) have "result s' ! (x div 16 * 16 + x mod 16)
       = result (initial_state (replicate 128 7)) ! (x div 16 * 16 + x mod 16)" by blast
    then show "result s' ! x = replicate 128 7 ! x" using x by (simp add: initial_state_def)
  qed
  with s'(1) show ?thesis by (simp add: PE_ROWS_def)
qed

text \<open>
  C3 (as amended). \<open>SystolicArrayKernel\<close> does not validate its dimensions. Invoked with
  \<open>M\<close> not divisible by \<open>PE_ROWS\<close>, the other preconditions holding, it runs to completion:
  the rows of the \<open>M div PE_ROWS\<close> whole tiles receive the values the reference model
  computes, and the remaining rows of the output keep their previous contents.
\<close>

theorem kernel_without_shape_check:
  assumes "\<not> PE_ROWS dvd M" "M \<le> M_DIM" "PE_COLS dvd N" "N \<le> N_DIM" "K \<le> K_DIM"
    and "length activations = M * K"
    and "length weights_packed = K * N div 2"
    and "length scales = K * N div GROUP_SIZE"
    and "length (result s) = M * N"
  shows "\<exists>s' out'. SystolicArrayKernel activations weights_packed scales M K N s = Inr s' \<and>
     cpu_reference activations weights_packed scales out M K N = Inr out' \<and>
     length (result s') = M * N \<and>
     (\<forall>m<M. \<forall>n<N. result s' ! (m * N + n) =
        (if m < PE_ROWS * (M div PE_ROWS) then out' ! (m * N + n) else result s ! (m * N + n)))"
proof -
  have a: "M \<le> 128" "16 dvd N" "N \<le> 512" "K \<le> 4096"
    "length weights_packed = K * N div 2" "length scales = K * N div 16"
    using assms by (simp_all add: PE_ROWS_def PE_COLS_def M_DIM_def N_DIM_def K_DIM_def GROUP_SIZE_def)
  from kernel_partial_rows [OF a(1-4) assms(6) a(5,6) assms(9)] obtain s' where s':
    "SystolicArrayKernel activations weights_packed scales M K N s = Inr s'"
    "length (result s') = M * N"
    "\<forall>m<M. \<forall>n<N. result s' ! (m * N + n) =
        (if m < 16 * (M div 16) then dot32 activations weights_packed scales K N m n
         else result s ! (m * N + n))"
    by blast
  have dv: "16 dvd K * N" using a(2) by simp
  have lw: "\<forall>k<K. \<forall>n<N. (k * N + n) div 2 < length weights_packed
                      \<and> (k * N + n) div 16 < length scales"
    using weight_indices_ok [OF dv a(5,6)] by blast
  have la: "M * K \<le> length activations" using assms(6) by simp
  from cpu_reference_general [OF la lw, of out] obtain out' where out':
    "cpu_reference activations weights_packed scales out M K N = Inr out'"
    "\<forall>x<M * N. out' ! x = dot32 activations weights_packed scales K N (x div N) (x mod N)"
    by blast
  have "out' ! (m * N + n) = dot32 activations weights_packed scales K N m n"
    if mn: "m < M" "n < N" for m n
    using out'(2) flat_index_less [OF mn] cell_div_mod [OF mn(2), of m] by simp
  with s' out'(1) show ?thesis by (simp add: PE_ROWS_def)
qed

theorem kernel_without_shape_check_witness:
  "\<not> PE_ROWS dvd (24::nat) \<and> (24::nat) \<le> M_DIM \<and> PE_COLS dvd (16::nat) \<and> (16::nat) \<le> N_DIM
   \<and> (16::nat) \<le> K_DIM
   \<and> length (replicate 384 (1::i8)) = 24 * 16
   \<and> length (replicate 128 (0x21::u8)) = 16 * 16 div 2
   \<and> length (replicate 16 (0::u8)) = 16 * 16 div GROUP_SIZE
   \<and> length (result (initial_state (replicate 384 7))) = 24 * 16
   \<and> (\<exists>s' out'. SystolicArrayKernel (replicate 384 1) (replicate 128 0x21) (replicate 16 0) 24 16 16
                    (initial_state (replicate 384 7)) = Inr s' \<and>
         cpu_reference (replicate 384 1) (replicate 128 0x21) (replicate 16 0) [] 24 16 16 = Inr out' \<and>
         length (result s') = 24 * 16 \<and>
         (\<forall>m<24. \<forall>n<16. result s' ! (m * 16 + n) =
            (if m < PE_ROWS * (24 div PE_ROWS) then out' ! (m * 16 + n)
             else result (initial_state (replicate 384 7)) ! (m * 16 + n))))"
proof -
  have h: "\<not> PE_ROWS dvd (24::nat)" "(24::nat) \<le> M_DIM" "PE_COLS dvd (16::nat)" "(16::nat) \<le> N_DIM"
    "(16::nat) \<le> K_DIM"
    "length (replicate 384 (1::i8)) = 24 * 16"
    "length (replicate 128 (0x21::u8)) = 16 * 16 div 2"
    "length (replicate 16 (0::u8)) = 16 * 16 div GROUP_SIZE"
    "length (result (initial_state (replicate 384 7))) = 24 * 16"
    by (simp_all add: PE_ROWS_def PE_COLS_def M_DIM_def N_DIM_def K_DIM_def GROUP_SIZE_def
        initial_state_def)
  from kernel_without_shape_check [OF h, of "[]"] h show ?thesis by blast
qed

section \<open>Independence of the static arrays\<close>

lemma for_loop_rel:
  assumes init: "R 0 s1 s2"
    and step: "\<And>i a b. i < n \<Longrightarrow> R i a b \<Longrightarrow> rel_sum (=) (R (Suc i)) (body i a) (body i b)"
  shows "rel_sum (=) (R n) (for_loop n body s1) (for_loop n body s2)"
proof -
  have "m \<le> n \<Longrightarrow> rel_sum (=) (R m) (for_loop m body s1) (for_loop m body s2)" for m
  proof (induction m)
    case 0
    show ?case using init by simp
  next
    case (Suc m)
    then have IH: "rel_sum (=) (R m) (for_loop m body s1) (for_loop m body s2)" and m: "m < n"
      by simp_all
    show ?case
    proof (cases "for_loop m body s1")
      case (Inl e)
      with IH show ?thesis by (cases "for_loop m body s2") simp_all
    next
      case (Inr a)
      with IH obtain b where b: "for_loop m body s2 = Inr b" "R m a b"
        by (cases "for_loop m body s2") simp_all
      from step [OF m b(2)] show ?thesis using Inr b(1) by simp
    qed
  qed
  then show ?thesis by simp
qed

lemma bind_err_rel:
  assumes "rel_sum (=) R x y" and "\<And>a b. R a b \<Longrightarrow> rel_sum (=) Q (f a) (g b)"
  shows "rel_sum (=) Q (bind_err x f) (bind_err y g)"
  using assms by (cases x; cases y) simp_all

lemma rel_sum_weaken:
  assumes "rel_sum (=) R x y" and "\<And>a b. R a b \<Longrightarrow> Q a b"
  shows "rel_sum (=) Q x y"
  using assms by (cases x; cases y) simp_all

lemma statics_agree_mono:
  assumes "statics_agree SA SW TA TW TC a b"
    and "SA' \<subseteq> SA" "SW' \<subseteq> SW" "TA' \<subseteq> TA" "TW' \<subseteq> TW" "TC' \<subseteq> TC"
  shows "statics_agree SA' SW' TA' TW' TC' a b"
  using assms unfolding statics_agree_def by blast

subsection \<open>Phase 1 and phase 2, two runs side by side\<close>

lemma load_act_tile_body_rel:
  assumes "statics_agree SA SW TA TW TC a b"
  shows "rel_sum (=) (statics_agree (insert (m_tile, idx div K, idx mod K) SA) SW TA TW TC)
     (load_act_tile_body acts K m_tile idx a) (load_act_tile_body acts K m_tile idx b)"
  using assms by (simp add: load_act_tile_body_def Let_def statics_agree_def)

lemma load_all_act_rel:
  assumes "statics_agree SA SW TA TW TC a b"
  shows "rel_sum (=)
     (statics_agree (SA \<union> {(t, i div K, i mod K) | t i. t < MT \<and> i < 16 * K}) SW TA TW TC)
     (load_all_act acts MT K a) (load_all_act acts MT K b)"
  unfolding load_all_act_def PE_ROWS_def
proof (rule for_loop_rel [where R = "\<lambda>n. statics_agree
      (SA \<union> {(t, i div K, i mod K) | t i. t < n \<and> i < 16 * K}) SW TA TW TC"])
  show "statics_agree (SA \<union> {(t, i div K, i mod K) | t i. t < 0 \<and> i < 16 * K}) SW TA TW TC a b"
    using assms by simp
next
  fix m_tile a' b'
  assume R: "statics_agree (SA \<union> {(t, i div K, i mod K) | t i. t < m_tile \<and> i < 16 * K})
      SW TA TW TC a' b'"
  let ?S = "SA \<union> {(t, i div K, i mod K) | t i. t < m_tile \<and> i < 16 * K}"
  have "rel_sum (=)
      (statics_agree (?S \<union> (\<lambda>i. (m_tile, i div K, i mod K)) ` {..<16 * K}) SW TA TW TC)
      (for_loop (16 * K) (load_act_tile_body acts K m_tile) a')
      (for_loop (16 * K) (load_act_tile_body acts K m_tile) b')"
  proof (rule for_loop_rel [where R = "\<lambda>n. statics_agree
      (?S \<union> (\<lambda>i. (m_tile, i div K, i mod K)) ` {..<n}) SW TA TW TC"])
    show "statics_agree (?S \<union> (\<lambda>i. (m_tile, i div K, i mod K)) ` {..<0}) SW TA TW TC a' b'"
      using R by simp
  next
    fix idx a'' b''
    assume "statics_agree (?S \<union> (\<lambda>i. (m_tile, i div K, i mod K)) ` {..<idx}) SW TA TW TC a'' b''"
    from load_act_tile_body_rel [OF this, of m_tile idx K acts]
    show "rel_sum (=) (statics_agree (?S \<union> (\<lambda>i. (m_tile, i div K, i mod K)) ` {..<Suc idx}) SW TA TW TC)
       (load_act_tile_body acts K m_tile idx a'') (load_act_tile_body acts K m_tile idx b'')"
      by (simp add: lessThan_Suc Un_commute)
  qed
  then show "rel_sum (=)
      (statics_agree (SA \<union> {(t, i div K, i mod K) | t i. t < Suc m_tile \<and> i < 16 * K}) SW TA TW TC)
      (for_loop (16 * K) (load_act_tile_body acts K m_tile) a')
      (for_loop (16 * K) (load_act_tile_body acts K m_tile) b')"
  proof (rule rel_sum_weaken)
    fix x y
    assume "statics_agree (?S \<union> (\<lambda>i. (m_tile, i div K, i mod K)) ` {..<16 * K}) SW TA TW TC x y"
    then show "statics_agree (SA \<union> {(t, i div K, i mod K) | t i. t < Suc m_tile \<and> i < 16 * K})
        SW TA TW TC x y"
      by (rule statics_agree_mono) (auto simp: less_Suc_eq)
  qed
qed

lemma load_wgt_tile_body_rel:
  assumes "statics_agree SA SW TA TW TC a b"
  shows "rel_sum (=) (statics_agree SA (insert (n_tile, idx div K, idx mod K) SW) TA TW TC)
     (load_wgt_tile_body wp sc K N n_tile idx a) (load_wgt_tile_body wp sc K N n_tile idx b)"
  using assms by (simp add: load_wgt_tile_body_def Let_def statics_agree_def)

lemma load_all_wgt_rel:
  assumes "statics_agree SA SW TA TW TC a b"
  shows "rel_sum (=)
     (statics_agree SA (SW \<union> {(t, i div K, i mod K) | t i. t < NT \<and> i < 16 * K}) TA TW TC)
     (load_all_wgt wp sc NT K N a) (load_all_wgt wp sc NT K N b)"
  unfolding load_all_wgt_def PE_COLS_def
proof (rule for_loop_rel [where R = "\<lambda>n. statics_agree SA
      (SW \<union> {(t, i div K, i mod K) | t i. t < n \<and> i < 16 * K}) TA TW TC"])
  show "statics_agree SA (SW \<union> {(t, i div K, i mod K) | t i. t < 0 \<and> i < 16 * K}) TA TW TC a b"
    using assms by simp
next
  fix n_tile a' b'
  assume R: "statics_agree SA (SW \<union> {(t, i div K, i mod K) | t i. t < n_tile \<and> i < 16 * K})
      TA TW TC a' b'"
  let ?S = "SW \<union> {(t, i div K, i mod K) | t i. t < n_tile \<and> i < 16 * K}"
  have "rel_sum (=)
      (statics_agree SA (?S \<union> (\<lambda>i. (n_tile, i div K, i mod K)) ` {..<16 * K}) TA TW TC)
      (for_loop (16 * K) (load_wgt_tile_body wp sc K N n_tile) a')
      (for_loop (16 * K) (load_wgt_tile_body wp sc K N n_tile) b')"
  proof (rule for_loop_rel [where R = "\<lambda>n. statics_agree SA
      (?S \<union> (\<lambda>i. (n_tile, i div K, i mod K)) ` {..<n}) TA TW TC"])
    show "statics_agree SA (?S \<union> (\<lambda>i. (n_tile, i div K, i mod K)) ` {..<0}) TA TW TC a' b'"
      using R by simp
  next
    fix idx a'' b''
    assume "statics_agree SA (?S \<union> (\<lambda>i. (n_tile, i div K, i mod K)) ` {..<idx}) TA TW TC a'' b''"
    from load_wgt_tile_body_rel [OF this, of n_tile idx K wp sc N]
    show "rel_sum (=) (statics_agree SA (?S \<union> (\<lambda>i. (n_tile, i div K, i mod K)) ` {..<Suc idx}) TA TW TC)
       (load_wgt_tile_body wp sc K N n_tile idx a'') (load_wgt_tile_body wp sc K N n_tile idx b'')"
      by (simp add: lessThan_Suc Un_commute)
  qed
  then show "rel_sum (=)
      (statics_agree SA (SW \<union> {(t, i div K, i mod K) | t i. t < Suc n_tile \<and> i < 16 * K}) TA TW TC)
      (for_loop (16 * K) (load_wgt_tile_body wp sc K N n_tile) a')
      (for_loop (16 * K) (load_wgt_tile_body wp sc K N n_tile) b')"
  proof (rule rel_sum_weaken)
    fix x y
    assume "statics_agree SA (?S \<union> (\<lambda>i. (n_tile, i div K, i mod K)) ` {..<16 * K}) TA TW TC x y"
    then show "statics_agree SA (SW \<union> {(t, i div K, i mod K) | t i. t < Suc n_tile \<and> i < 16 * K})
        TA TW TC x y"
      by (rule statics_agree_mono) (auto simp: less_Suc_eq)
  qed
qed

lemma loaded_cell:
  fixes K :: nat
  assumes "t < T" "i < 16" "k < K"
  shows "(t, i, k) \<in> S \<union> {(t, i div K, i mod K) | t i. t < T \<and> i < 16 * K}"
proof -
  have "(i * K + k) div K = i" "(i * K + k) mod K = k" using assms(3) by simp_all
  moreover have "i * K + k < 16 * K" using assms(2,3) by (simp add: tile_index_full)
  ultimately have "\<exists>t' i'. (t, i, k) = (t', i' div K, i' mod K) \<and> t' < T \<and> i' < 16 * K"
    using assms(1) by (intro exI [of _ t] exI [of _ "i * K + k"]) simp
  then show ?thesis by blast
qed

subsection \<open>Phase 3, two runs side by side\<close>

lemma copy_A_body_rel:
  assumes "statics_agree SA SW TA TW TC a b" and "i < 16 \<Longrightarrow> (m_tile, i, k) \<in> SA"
  shows "rel_sum (=) (statics_agree SA SW (insert (i, k) TA) TW TC)
     (copy_A_body m_tile k i a) (copy_A_body m_tile k i b)"
  using assms by (simp add: copy_A_body_def statics_agree_def PE_ROWS_def)

lemma copy_W_body_rel:
  assumes "statics_agree SA SW TA TW TC a b" and "j < 16 \<Longrightarrow> (n_tile, j, k) \<in> SW"
  shows "rel_sum (=) (statics_agree SA SW TA (insert (j, k) TW) TC)
     (copy_W_body n_tile k j a) (copy_W_body n_tile k j b)"
  using assms by (simp add: copy_W_body_def statics_agree_def PE_COLS_def)

lemma copy_to_work_rel:
  assumes ag: "statics_agree SA SW TA TW TC a b"
    and SA: "\<forall>i<16. \<forall>k<K. (m_tile, i, k) \<in> SA"
    and SW: "\<forall>j<16. \<forall>k<K. (n_tile, j, k) \<in> SW"
  shows "rel_sum (=)
     (statics_agree SA SW (TA \<union> {(i, k). i < 16 \<and> k < K}) (TW \<union> {(j, k). j < 16 \<and> k < K}) TC)
     (copy_to_work K m_tile n_tile a) (copy_to_work K m_tile n_tile b)"
  unfolding copy_to_work_def PE_ROWS_def PE_COLS_def
proof (rule for_loop_rel [where R = "\<lambda>n. statics_agree SA SW
      (TA \<union> {(i, k). i < 16 \<and> k < n}) (TW \<union> {(j, k). j < 16 \<and> k < n}) TC"])
  show "statics_agree SA SW (TA \<union> {(i, k). i < 16 \<and> k < 0}) (TW \<union> {(j, k). j < 16 \<and> k < 0}) TC a b"
    using ag by simp
next
  fix k a' b'
  assume k: "k < K" and R: "statics_agree SA SW
      (TA \<union> {(i, k'). i < 16 \<and> k' < k}) (TW \<union> {(j, k'). j < 16 \<and> k' < k}) TC a' b'"
  let ?TA = "TA \<union> {(i, k'). i < 16 \<and> k' < k}" and ?TW = "TW \<union> {(j, k'). j < 16 \<and> k' < k}"
  have A: "rel_sum (=) (statics_agree SA SW (?TA \<union> (\<lambda>i. (i, k)) ` {..<16}) ?TW TC)
      (for_loop 16 (copy_A_body m_tile k) a') (for_loop 16 (copy_A_body m_tile k) b')"
  proof (rule for_loop_rel [where R = "\<lambda>n. statics_agree SA SW (?TA \<union> (\<lambda>i. (i, k)) ` {..<n}) ?TW TC"])
    show "statics_agree SA SW (?TA \<union> (\<lambda>i. (i, k)) ` {..<0}) ?TW TC a' b'" using R by simp
  next
    fix i a'' b''
    assume "statics_agree SA SW (?TA \<union> (\<lambda>i. (i, k)) ` {..<i}) ?TW TC a'' b''"
    from copy_A_body_rel [OF this, of i m_tile k] SA k
    show "rel_sum (=) (statics_agree SA SW (?TA \<union> (\<lambda>i. (i, k)) ` {..<Suc i}) ?TW TC)
        (copy_A_body m_tile k i a'') (copy_A_body m_tile k i b'')"
      by (simp add: lessThan_Suc Un_commute)
  qed
  have W: "rel_sum (=) (statics_agree SA SW (?TA \<union> (\<lambda>i. (i, k)) ` {..<16})
        (?TW \<union> (\<lambda>j. (j, k)) ` {..<16}) TC)
      (for_loop 16 (copy_W_body n_tile k) x) (for_loop 16 (copy_W_body n_tile k) y)"
    if xy: "statics_agree SA SW (?TA \<union> (\<lambda>i. (i, k)) ` {..<16}) ?TW TC x y" for x y
  proof (rule for_loop_rel [where R = "\<lambda>n. statics_agree SA SW (?TA \<union> (\<lambda>i. (i, k)) ` {..<16})
        (?TW \<union> (\<lambda>j. (j, k)) ` {..<n}) TC"])
    show "statics_agree SA SW (?TA \<union> (\<lambda>i. (i, k)) ` {..<16}) (?TW \<union> (\<lambda>j. (j, k)) ` {..<0}) TC x y"
      using xy by simp
  next
    fix j a'' b''
    assume "statics_agree SA SW (?TA \<union> (\<lambda>i. (i, k)) ` {..<16}) (?TW \<union> (\<lambda>j. (j, k)) ` {..<j}) TC a'' b''"
    from copy_W_body_rel [OF this, of j n_tile k] SW k
    show "rel_sum (=) (statics_agree SA SW (?TA \<union> (\<lambda>i. (i, k)) ` {..<16})
          (?TW \<union> (\<lambda>j. (j, k)) ` {..<Suc j}) TC)
        (copy_W_body n_tile k j a'') (copy_W_body n_tile k j b'')"
      by (simp add: lessThan_Suc Un_commute)
  qed
  have "rel_sum (=) (statics_agree SA SW (?TA \<union> (\<lambda>i. (i, k)) ` {..<16})
        (?TW \<union> (\<lambda>j. (j, k)) ` {..<16}) TC)
      (bind_err (for_loop 16 (copy_A_body m_tile k) a') (for_loop 16 (copy_W_body n_tile k)))
      (bind_err (for_loop 16 (copy_A_body m_tile k) b') (for_loop 16 (copy_W_body n_tile k)))"
    using A W by (rule bind_err_rel)
  then show "rel_sum (=) (statics_agree SA SW
      (TA \<union> {(i, k'). i < 16 \<and> k' < Suc k}) (TW \<union> {(j, k'). j < 16 \<and> k' < Suc k}) TC)
      (bind_err (for_loop 16 (copy_A_body m_tile k) a') (for_loop 16 (copy_W_body n_tile k)))
      (bind_err (for_loop 16 (copy_A_body m_tile k) b') (for_loop 16 (copy_W_body n_tile k)))"
  proof (rule rel_sum_weaken)
    fix x y
    assume "statics_agree SA SW (?TA \<union> (\<lambda>i. (i, k)) ` {..<16}) (?TW \<union> (\<lambda>j. (j, k)) ` {..<16}) TC x y"
    then show "statics_agree SA SW
      (TA \<union> {(i, k'). i < 16 \<and> k' < Suc k}) (TW \<union> {(j, k'). j < 16 \<and> k' < Suc k}) TC x y"
      by (rule statics_agree_mono) (auto simp: less_Suc_eq)
  qed
qed

lemma init_body_rel:
  assumes "statics_agree SA SW TA TW TC a b"
  shows "rel_sum (=) (statics_agree SA SW TA TW (insert (i, j) TC)) (init_body i j a) (init_body i j b)"
  using assms by (simp add: init_body_def statics_agree_def)

lemma init_output_rel:
  assumes ag: "statics_agree SA SW TA TW TC a b"
  shows "rel_sum (=) (statics_agree SA SW TA TW (TC \<union> {(i, j). i < 16 \<and> j < 16}))
     (init_output a) (init_output b)"
  unfolding init_output_def PE_ROWS_def PE_COLS_def
proof (rule for_loop_rel [where R = "\<lambda>n. statics_agree SA SW TA TW (TC \<union> {(i, j). i < n \<and> j < 16})"])
  show "statics_agree SA SW TA TW (TC \<union> {(i, j). i < 0 \<and> j < 16}) a b" using ag by simp
next
  fix i a' b'
  assume R: "statics_agree SA SW TA TW (TC \<union> {(i', j). i' < i \<and> j < 16}) a' b'"
  let ?TC = "TC \<union> {(i', j). i' < i \<and> j < 16}"
  have "rel_sum (=) (statics_agree SA SW TA TW (?TC \<union> (\<lambda>j. (i, j)) ` {..<16}))
      (for_loop 16 (init_body i) a') (for_loop 16 (init_body i) b')"
  proof (rule for_loop_rel [where R = "\<lambda>n. statics_agree SA SW TA TW (?TC \<union> (\<lambda>j. (i, j)) ` {..<n})"])
    show "statics_agree SA SW TA TW (?TC \<union> (\<lambda>j. (i, j)) ` {..<0}) a' b'" using R by simp
  next
    fix j a'' b''
    assume "statics_agree SA SW TA TW (?TC \<union> (\<lambda>j. (i, j)) ` {..<j}) a'' b''"
    from init_body_rel [OF this, of i j]
    show "rel_sum (=) (statics_agree SA SW TA TW (?TC \<union> (\<lambda>j. (i, j)) ` {..<Suc j}))
        (init_body i j a'') (init_body i j b'')"
      by (simp add: lessThan_Suc Un_commute)
  qed
  then show "rel_sum (=) (statics_agree SA SW TA TW (TC \<union> {(i', j). i' < Suc i \<and> j < 16}))
      (for_loop 16 (init_body i) a') (for_loop 16 (init_body i) b')"
  proof (rule rel_sum_weaken)
    fix x y
    assume "statics_agree SA SW TA TW (?TC \<union> (\<lambda>j. (i, j)) ` {..<16}) x y"
    then show "statics_agree SA SW TA TW (TC \<union> {(i', j). i' < Suc i \<and> j < 16}) x y"
      by (rule statics_agree_mono) (auto simp: less_Suc_eq)
  qed
qed

lemma compute_body_rel:
  assumes "statics_agree SA SW TA TW TC a b"
    and "(i, k) \<in> TA" "(j, k) \<in> TW" "(i, j) \<in> TC"
  shows "rel_sum (=) (statics_agree SA SW TA TW TC) (compute_body k i j a) (compute_body k i j b)"
  using assms by (simp add: compute_body_def statics_agree_def Let_def)

lemma compute_rel:
  assumes ag: "statics_agree SA SW TA TW TC a b"
    and TA: "\<forall>i<16. \<forall>k<K. (i, k) \<in> TA" and TW: "\<forall>j<16. \<forall>k<K. (j, k) \<in> TW"
    and TC: "\<forall>i<16. \<forall>j<16. (i, j) \<in> TC"
  shows "rel_sum (=) (statics_agree SA SW TA TW TC) (compute K a) (compute K b)"
  unfolding compute_def PE_ROWS_def PE_COLS_def
proof (rule for_loop_rel [where R = "\<lambda>n. statics_agree SA SW TA TW TC", OF ag])
  fix k a1 b1 assume k: "k < K" and ag1: "statics_agree SA SW TA TW TC a1 b1"
  show "rel_sum (=) (statics_agree SA SW TA TW TC)
      (for_loop 16 (\<lambda>i. for_loop 16 (compute_body k i)) a1)
      (for_loop 16 (\<lambda>i. for_loop 16 (compute_body k i)) b1)"
  proof (rule for_loop_rel [where R = "\<lambda>n. statics_agree SA SW TA TW TC", OF ag1])
    fix i :: nat and a2 b2 assume i: "i < 16" and ag2: "statics_agree SA SW TA TW TC a2 b2"
    show "rel_sum (=) (statics_agree SA SW TA TW TC)
        (for_loop 16 (compute_body k i) a2) (for_loop 16 (compute_body k i) b2)"
    proof (rule for_loop_rel [where R = "\<lambda>n. statics_agree SA SW TA TW TC", OF ag2])
      fix j :: nat and a3 b3 assume j: "j < 16" and ag3: "statics_agree SA SW TA TW TC a3 b3"
      show "rel_sum (=) (statics_agree SA SW TA TW TC) (compute_body k i j a3) (compute_body k i j b3)"
        using ag3 TA TW TC i j k by (intro compute_body_rel) auto
    qed
  qed
qed

lemma write_output_body_rel:
  assumes "statics_agree SA SW TA TW TC a b" and "(idx div 16, idx mod 16) \<in> TC"
  shows "rel_sum (=) (statics_agree SA SW TA TW TC)
     (write_output_body N m_tile n_tile idx a) (write_output_body N m_tile n_tile idx b)"
  using assms by (simp add: write_output_body_def statics_agree_def Let_def PE_ROWS_def PE_COLS_def)

lemma write_output_rel:
  assumes ag: "statics_agree SA SW TA TW TC a b" and TC: "\<forall>i<16. \<forall>j<16. (i, j) \<in> TC"
  shows "rel_sum (=) (statics_agree SA SW TA TW TC)
     (write_output N m_tile n_tile a) (write_output N m_tile n_tile b)"
  unfolding write_output_def
proof (rule for_loop_rel [where R = "\<lambda>n. statics_agree SA SW TA TW TC", OF ag])
  fix idx a' b' assume idx: "idx < PE_ROWS * PE_COLS" and ag': "statics_agree SA SW TA TW TC a' b'"
  have "idx div 16 < 16" "idx mod 16 < 16" using idx by (simp_all add: PE_ROWS_def PE_COLS_def)
  then have "(idx div 16, idx mod 16) \<in> TC" using TC by blast
  with ag' show "rel_sum (=) (statics_agree SA SW TA TW TC)
      (write_output_body N m_tile n_tile idx a') (write_output_body N m_tile n_tile idx b')"
    by (rule write_output_body_rel)
qed

lemma tile_body_rel:
  assumes ag: "statics_agree SA SW {} {} {} a b"
    and SA: "\<forall>i<16. \<forall>k<K. (m_tile, i, k) \<in> SA"
    and SW: "\<forall>j<16. \<forall>k<K. (n_tile, j, k) \<in> SW"
  shows "rel_sum (=) (statics_agree SA SW {} {} {})
     (tile_body K N m_tile n_tile a) (tile_body K N m_tile n_tile b)"
proof -
  let ?TA = "{} \<union> {(i, k). i < 16 \<and> k < K}" and ?TW = "{} \<union> {(j, k). j < 16 \<and> k < K}"
  let ?TC = "{} \<union> {(i, j). i < (16::nat) \<and> j < (16::nat)}"
  let ?R = "statics_agree SA SW ?TA ?TW ?TC"
  have "rel_sum (=) ?R (tile_body K N m_tile n_tile a) (tile_body K N m_tile n_tile b)"
    unfolding tile_body_def
  proof (rule bind_err_rel [OF copy_to_work_rel [OF ag SA SW]])
    fix a1 b1 assume ag1: "statics_agree SA SW ?TA ?TW {} a1 b1"
    show "rel_sum (=) ?R
        (bind_err (init_output a1) (\<lambda>s. bind_err (compute K s) (write_output N m_tile n_tile)))
        (bind_err (init_output b1) (\<lambda>s. bind_err (compute K s) (write_output N m_tile n_tile)))"
    proof (rule bind_err_rel [OF init_output_rel [OF ag1]])
      fix a2 b2 assume ag2: "?R a2 b2"
      show "rel_sum (=) ?R (bind_err (compute K a2) (write_output N m_tile n_tile))
          (bind_err (compute K b2) (write_output N m_tile n_tile))"
      proof (rule bind_err_rel [OF compute_rel [OF ag2]])
        fix a3 b3 assume "?R a3 b3"
        then show "rel_sum (=) ?R (write_output N m_tile n_tile a3) (write_output N m_tile n_tile b3)"
          by (rule write_output_rel) simp
      qed simp_all
    qed
  qed
  then show ?thesis
    by (rule rel_sum_weaken) (erule statics_agree_mono, simp_all)
qed

lemma m_loop_rel:
  assumes ag: "statics_agree SA SW {} {} {} a b"
    and SA: "\<forall>t<MT. \<forall>i<16. \<forall>k<K. (t, i, k) \<in> SA"
    and SW: "\<forall>t<NT. \<forall>j<16. \<forall>k<K. (t, j, k) \<in> SW"
  shows "rel_sum (=) (statics_agree SA SW {} {} {}) (m_loop MT NT K N a) (m_loop MT NT K N b)"
  unfolding m_loop_def
proof (rule for_loop_rel [where R = "\<lambda>n. statics_agree SA SW {} {} {}", OF ag])
  fix m_tile a1 b1 assume mt: "m_tile < MT" and ag1: "statics_agree SA SW {} {} {} a1 b1"
  show "rel_sum (=) (statics_agree SA SW {} {} {})
      (for_loop NT (tile_body K N m_tile) a1) (for_loop NT (tile_body K N m_tile) b1)"
  proof (rule for_loop_rel [where R = "\<lambda>n. statics_agree SA SW {} {} {}", OF ag1])
    fix n_tile a2 b2 assume nt: "n_tile < NT" and ag2: "statics_agree SA SW {} {} {} a2 b2"
    show "rel_sum (=) (statics_agree SA SW {} {} {})
        (tile_body K N m_tile n_tile a2) (tile_body K N m_tile n_tile b2)"
      using ag2 SA SW mt nt by (intro tile_body_rel) auto
  qed
qed

lemma kernel_rel:
  assumes "result a = result b"
  shows "rel_sum (=) (\<lambda>a' b'. result a' = result b')
     (SystolicArrayKernel acts wp sc M K N a) (SystolicArrayKernel acts wp sc M K N b)"
proof -
  let ?MT = "M div 16" and ?NT = "N div 16"
  let ?SA = "{} \<union> {(t, i div K, i mod K) | t i. t < ?MT \<and> i < 16 * K}"
  let ?SW = "{} \<union> {(t, i div K, i mod K) | t i. t < ?NT \<and> i < 16 * K}"
  have ag: "statics_agree {} {} {} {} {} a b" using assms by (simp add: statics_agree_def)
  have "rel_sum (=) (statics_agree ?SA ?SW {} {} {})
     (SystolicArrayKernel acts wp sc M K N a) (SystolicArrayKernel acts wp sc M K N b)"
    unfolding SystolicArrayKernel_def Let_def PE_ROWS_def PE_COLS_def
  proof (rule bind_err_rel [OF load_all_act_rel [OF ag]])
    fix a1 b1 assume ag1: "statics_agree ?SA {} {} {} {} a1 b1"
    show "rel_sum (=) (statics_agree ?SA ?SW {} {} {})
        (bind_err (load_all_wgt wp sc ?NT K N a1) (m_loop ?MT ?NT K N))
        (bind_err (load_all_wgt wp sc ?NT K N b1) (m_loop ?MT ?NT K N))"
    proof (rule bind_err_rel [OF load_all_wgt_rel [OF ag1]])
      fix a2 b2 assume ag2: "statics_agree ?SA ?SW {} {} {} a2 b2"
      show "rel_sum (=) (statics_agree ?SA ?SW {} {} {}) (m_loop ?MT ?NT K N a2) (m_loop ?MT ?NT K N b2)"
        using ag2 loaded_cell [of _ ?MT _ _ K "{}"] loaded_cell [of _ ?NT _ _ K "{}"]
        by (intro m_loop_rel) blast+
    qed
  qed
  then show ?thesis
    by (rule rel_sum_weaken) (simp add: statics_agree_def)
qed

text \<open>
  C9. The kernel is a function of its arguments, and its outcome (the output matrix it
  leaves in \<open>result\<close>, or the failure) does not depend on what the static arrays
  \<open>A_cache\<close>, \<open>W_cache\<close>, \<open>A_work\<close>, \<open>W_work\<close> and \<open>C_work\<close> held on entry: replacing their
  contents by anything else changes neither.
\<close>

theorem kernel_output_independent_of_statics:
  "map_sum id result (SystolicArrayKernel activations weights_packed scales M K N s) =
   map_sum id result (SystolicArrayKernel activations weights_packed scales M K N
      (s\<lparr>A_cache := a_cache, W_cache := w_cache, A_work := a_work, W_work := w_work,
         C_work := c_work\<rparr>))"
proof -
  let ?s' = "s\<lparr>A_cache := a_cache, W_cache := w_cache, A_work := a_work, W_work := w_work,
         C_work := c_work\<rparr>"
  have "result s = result ?s'" by simp
  from kernel_rel [OF this, of activations weights_packed scales M K N]
  show ?thesis
    by (cases "SystolicArrayKernel activations weights_packed scales M K N s";
        cases "SystolicArrayKernel activations weights_packed scales M K N ?s'") simp_all
qed

section \<open>Properties of the quantization codec\<close>

lemma max_abs_loop:
  assumes "\<forall>i<n. base + i < length ws"
  shows "for_loop n (max_abs_body ws base) m =
     Inr (Max (insert m ((\<lambda>i. \<bar>ws ! (base + i)\<bar>) ` {..<n})))"
  using assms
proof (induction n)
  case 0
  show ?case by simp
next
  case (Suc n)
  let ?S = "(\<lambda>i. \<bar>ws ! (base + i)\<bar>) ` {..<n}"
  have fin: "finite (insert m ?S)" "insert m ?S \<noteq> {}" by simp_all
  have "Max (insert \<bar>ws ! (base + n)\<bar> (insert m ?S)) = max \<bar>ws ! (base + n)\<bar> (Max (insert m ?S))"
    by (rule Max_insert [OF fin])
  moreover have "insert m ((\<lambda>i. \<bar>ws ! (base + i)\<bar>) ` {..<Suc n})
      = insert \<bar>ws ! (base + n)\<bar> (insert m ?S)"
    by (auto simp: lessThan_Suc)
  ultimately show ?case
    using Suc by (simp add: max_abs_body_def max.commute)
qed

lemma max_abs_group:
  assumes "g * 16 + 16 \<le> length ws"
  shows "for_loop GROUP_SIZE (max_abs_body ws (g * GROUP_SIZE)) 0 = Inr (group_max_abs ws g)"
proof -
  let ?S = "(\<lambda>i. \<bar>ws ! (g * 16 + i)\<bar>) ` {..<16::nat}"
  have b: "\<forall>i<16. g * 16 + i < length ws" using assms by auto
  have fin: "finite ?S" "?S \<noteq> {}" by (simp_all add: lessThan_empty_iff)
  have "\<bar>ws ! (g * 16 + 0)\<bar> \<in> ?S" by (rule imageI) simp
  then have "\<bar>ws ! (g * 16 + 0)\<bar> \<le> Max ?S" using fin(1) by (rule Max_ge [rotated])
  then have "0 \<le> Max ?S" using abs_ge_zero [of "ws ! (g * 16 + 0)"] by linarith
  then have "Max (insert 0 ?S) = Max ?S" by (simp add: Max_insert [OF fin] max_def)
  then show ?thesis
    using max_abs_loop [OF b, of 0] by (simp add: GROUP_SIZE_def group_max_abs_def)
qed

lemma group_max_abs_nonneg:
  "0 \<le> group_max_abs ws g"
proof -
  let ?S = "(\<lambda>i. \<bar>ws ! (g * 16 + i)\<bar>) ` {..<16::nat}"
  have "\<bar>ws ! (g * 16 + 0)\<bar> \<in> ?S" by (rule imageI) simp
  then have "\<bar>ws ! (g * 16 + 0)\<bar> \<le> Max ?S" by (intro Max_ge) simp_all
  then show ?thesis
    using abs_ge_zero [of "ws ! (g * 16 + 0)"] by (simp add: group_max_abs_def GROUP_SIZE_def)
qed


lemma group_shift_range: "0 \<le> group_shift fl ws g" "group_shift fl ws g \<le> 3"
  by (simp_all add: group_shift_def)

lemma sint_word_of_int_8:
  assumes "- 128 \<le> r" "r \<le> 127"
  shows "sint (word_of_int r :: 8 word) = r"
proof -
  have "signed_take_bit 7 r = r" using assms by (intro signed_take_bit_int_eq_self) simp_all
  then show ?thesis by (simp add: sint_sbintrunc')
qed

lemma sint_clamp_4bit:
  assumes "- 128 \<le> r" "r \<le> 127"
  shows "sint (clamp_4bit (word_of_int r)) = max (- 8) (min 7 r)"
  using assms by (auto simp: clamp_4bit_def Let_def sint_word_of_int_8)


lemma nibble_mask: "(0x0F :: 8 word) = mask 4"
  by (simp add: mask_eq_exp_minus_1)

lemma pack_low: "pack_nibbles w0 w1 AND 0x0F = w0 AND 0x0F"
  unfolding pack_nibbles_def nibble_mask
  by (rule bit_eqI) (auto simp: bit_simps)

lemma pack_high: "drop_bit 4 (pack_nibbles w0 w1) AND 0x0F = w1 AND 0x0F"
  unfolding pack_nibbles_def nibble_mask
  by (rule bit_eqI) (auto simp: bit_simps)

lemma signed_nibble_mod:
  fixes z :: int
  assumes "- 8 \<le> z" "z \<le> 7"
  shows "(if z mod 16 < 8 then z mod 16 else z mod 16 - 16) = z"
proof (cases "0 \<le> z")
  case True
  then have "z mod 16 = z" using assms by simp
  then show ?thesis using assms by simp
next
  case False
  have "(z + 16) mod 16 = z mod 16" by simp
  moreover have "(z + 16) mod 16 = z + 16" using False assms by (intro mod_pos_pos_trivial) simp_all
  ultimately have "z mod 16 = z + 16" by simp
  then show ?thesis using False assms by simp
qed

lemma nibble_value_sint:
  fixes w :: "8 word"
  assumes "- 8 \<le> sint w" "sint w \<le> 7"
  shows "(if uint (w AND 0x0F) < 8 then uint (w AND 0x0F) else uint (w AND 0x0F) - 16) = sint w"
proof -
  have "uint w = sint w mod 256"
    using uint_sint [of w] by (simp add: take_bit_eq_mod)
  then have "uint (w AND 0x0F) = sint w mod 16"
    by (simp add: uint_low_nibble mod_mod_cancel)
  then show ?thesis using signed_nibble_mod [OF assms] by (simp only:)
qed

lemma nibble_value_pack:
  assumes "- 8 \<le> sint w0" "sint w0 \<le> 7" "- 8 \<le> sint w1" "sint w1 \<le> 7"
  shows "nibble_value (pack_nibbles w0 w1) False = sint w0"
    and "nibble_value (pack_nibbles w0 w1) True = sint w1"
proof -
  have "uint (pack_nibbles w0 w1) mod 16 = uint (w0 AND 0x0F)"
    using uint_low_nibble [of "pack_nibbles w0 w1"] by (simp add: pack_low)
  then show "nibble_value (pack_nibbles w0 w1) False = sint w0"
    using nibble_value_sint [OF assms(1,2)] by (simp add: nibble_value_def Let_def)
  have "uint (pack_nibbles w0 w1) div 16 = uint (w1 AND 0x0F)"
    using uint_high_nibble [of "pack_nibbles w0 w1"] by (simp add: pack_high)
  then show "nibble_value (pack_nibbles w0 w1) True = sint w1"
    using nibble_value_sint [OF assms(3,4)] by (simp add: nibble_value_def Let_def)
qed


lemma to_int8_ok: "- 128 \<le> z \<Longrightarrow> z \<le> 127 \<Longrightarrow> to_int8 z = Inr (word_of_int z)"
  by (simp add: to_int8_def)

lemma group_index_div:
  fixes g i :: nat
  assumes "i < 16"
  shows "(g * 16 + i) div 16 = g"
  using assms by simp

lemma quantize_pair_body_eq:
  assumes len: "g * 16 + 16 \<le> length ws" and plen: "g * 8 + 8 \<le> length pk" and p: "p < 8"
    and conv: "conversions_defined fl ws (Suc g)"
  shows "quantize_pair_body ws (g * 16) (2 ^ nat (group_shift fl ws g * 2)) p pk =
     Inr (pk[g * 8 + p := quantized_byte fl ws (g * 8 + p)])"
proof -
  let ?x0 = "g * 16 + 2 * p"
  have x0: "?x0 < Suc g * 16" "?x0 + 1 < Suc g * 16" using p by simp_all
  have d: "?x0 div 16 = g" "(?x0 + 1) div 16 = g" using p by simp_all
  have y: "2 * (g * 8 + p) = ?x0" "?x0 div 2 = g * 8 + p" by simp_all
  have c0: "- 128 \<le> scaled_round fl ws ?x0" "scaled_round fl ws ?x0 \<le> 127"
    using conv x0(1) unfolding conversions_defined_def GROUP_SIZE_def by blast+
  have c1: "- 128 \<le> scaled_round fl ws (?x0 + 1)" "scaled_round fl ws (?x0 + 1) \<le> 127"
    using conv x0(2) unfolding conversions_defined_def GROUP_SIZE_def by blast+
  have r0: "c_round (ws ! ?x0 / 2 ^ nat (group_shift fl ws g * 2)) = scaled_round fl ws ?x0"
    by (simp only: scaled_round_def GROUP_SIZE_def d)
  have r1: "c_round (ws ! (?x0 + 1) / 2 ^ nat (group_shift fl ws g * 2)) = scaled_round fl ws (?x0 + 1)"
    by (simp only: scaled_round_def GROUP_SIZE_def d)
  have b: "?x0 < length ws" "?x0 + 1 < length ws" "g * 8 + p < length pk"
    using len plen p by simp_all
  have qb: "quantized_byte fl ws (g * 8 + p) =
      pack_nibbles (clamp_4bit (word_of_int (scaled_round fl ws ?x0)))
                   (clamp_4bit (word_of_int (scaled_round fl ws (?x0 + 1))))"
    unfolding quantized_byte_def quantized_nibble_def y(1) ..
  have "quantize_pair_body ws (g * 16) (2 ^ nat (group_shift fl ws g * 2)) p pk =
      (if ?x0 div 2 < length pk
       then Inr (pk[?x0 div 2 := pack_nibbles (clamp_4bit (word_of_int (scaled_round fl ws ?x0)))
                   (clamp_4bit (word_of_int (scaled_round fl ws (?x0 + 1))))])
       else Inl OutOfBounds)"
    unfolding quantize_pair_body_def Let_def
    using b(1,2) by (simp only: r0 r1 to_int8_ok [OF c0] to_int8_ok [OF c1] bind_err_Inr if_True simp_thms)
  then show ?thesis
    using b(3) by (simp only: y(2) qb if_True)
qed

lemma quantize_pair_loop:
  assumes len: "g * 16 + 16 \<le> length ws" and plen: "g * 8 + 8 \<le> length pk"
    and conv: "conversions_defined fl ws (Suc g)"
  shows "\<exists>pk'. for_loop 8 (quantize_pair_body ws (g * 16) (2 ^ nat (group_shift fl ws g * 2))) pk = Inr pk'
     \<and> length pk' = length pk
     \<and> (\<forall>y<length pk. pk' ! y =
           (if g * 8 \<le> y \<and> y < g * 8 + 8 then quantized_byte fl ws y else pk ! y))"
proof -
  let ?I = "\<lambda>p t. length t = length pk \<and> (\<forall>y<length pk. t ! y =
           (if g * 8 \<le> y \<and> y < g * 8 + p then quantized_byte fl ws y else pk ! y))"
  have "\<exists>t. for_loop 8 (quantize_pair_body ws (g * 16) (2 ^ nat (group_shift fl ws g * 2))) pk = Inr t
      \<and> ?I 8 t"
  proof (rule for_loop_rule [where I = ?I and n = 8])
    show "?I 0 pk" by auto
  next
    fix p t assume p: "p < (8::nat)" and I: "?I p t"
    have plen': "g * 8 + 8 \<le> length t" using I plen by simp
    have step: "quantize_pair_body ws (g * 16) (2 ^ nat (group_shift fl ws g * 2)) p t =
       Inr (t[g * 8 + p := quantized_byte fl ws (g * 8 + p)])"
      by (rule quantize_pair_body_eq [OF len plen' p conv])
    have "?I (Suc p) (t[g * 8 + p := quantized_byte fl ws (g * 8 + p)])"
      using I by (auto simp: nth_list_update less_Suc_eq)
    with step show "\<exists>t'. quantize_pair_body ws (g * 16) (2 ^ nat (group_shift fl ws g * 2)) p t = Inr t'
        \<and> ?I (Suc p) t'" by blast
  qed
  then show ?thesis by blast
qed

lemma quantize_group_ok:
  assumes len: "g * 16 + 16 \<le> length ws" and plen: "g * 8 + 8 \<le> length pk"
    and slen: "g < length sc" and conv: "conversions_defined fl ws (Suc g)"
  shows "\<exists>pk'. quantize_group fl ws g (pk, sc) = Inr (pk', sc[g := word_of_int (group_shift fl ws g)])
     \<and> length pk' = length pk
     \<and> (\<forall>y<length pk. pk' ! y =
           (if g * 8 \<le> y \<and> y < g * 8 + 8 then quantized_byte fl ws y else pk ! y))"
proof -
  from quantize_pair_loop [OF len plen conv] obtain pk' where pk':
    "for_loop 8 (quantize_pair_body ws (g * 16) (2 ^ nat (group_shift fl ws g * 2))) pk = Inr pk'"
    "length pk' = length pk"
    "\<forall>y<length pk. pk' ! y =
           (if g * 8 \<le> y \<and> y < g * 8 + 8 then quantized_byte fl ws y else pk ! y)"
    by blast
  have "quantize_group fl ws g (pk, sc) = Inr (pk', sc[g := word_of_int (group_shift fl ws g)])"
    unfolding quantize_group_def Let_def
    using slen pk'(1)
    by (simp add: max_abs_group [OF len, unfolded GROUP_SIZE_def] group_shift_def GROUP_SIZE_def)
  with pk'(2,3) show ?thesis by blast
qed

lemma conversions_defined_mono:
  "conversions_defined fl ws G \<Longrightarrow> G' \<le> G \<Longrightarrow> conversions_defined fl ws G'"
  unfolding conversions_defined_def
  by (meson less_le_trans mult_le_mono1)

lemma quantize_groups_loop:
  assumes len: "G * 16 \<le> length ws" and plen: "G * 8 \<le> length pk0" and slen: "G \<le> length sc0"
    and conv: "conversions_defined fl ws G"
  shows "\<exists>pk sc. for_loop G (quantize_group fl ws) (pk0, sc0) = Inr (pk, sc)
     \<and> length pk = length pk0 \<and> length sc = length sc0
     \<and> (\<forall>y<length pk0. pk ! y = (if y < G * 8 then quantized_byte fl ws y else pk0 ! y))
     \<and> (\<forall>h<length sc0. sc ! h = (if h < G then word_of_int (group_shift fl ws h) else sc0 ! h))"
proof -
  let ?I = "\<lambda>g st. length (fst st) = length pk0 \<and> length (snd st) = length sc0
     \<and> (\<forall>y<length pk0. fst st ! y = (if y < g * 8 then quantized_byte fl ws y else pk0 ! y))
     \<and> (\<forall>h<length sc0. snd st ! h = (if h < g then word_of_int (group_shift fl ws h) else sc0 ! h))"
  have "\<exists>t. for_loop G (quantize_group fl ws) (pk0, sc0) = Inr t \<and> ?I G t"
  proof (rule for_loop_rule [where I = ?I and n = G])
    show "?I 0 (pk0, sc0)" by simp
  next
    fix g t assume g: "g < G" and I: "?I g t"
    obtain pk sc where t: "t = (pk, sc)" by (cases t)
    have "Suc g * 16 \<le> G * 16" "Suc g * 8 \<le> G * 8" using g by simp_all
    then have len': "g * 16 + 16 \<le> length ws" and plen': "g * 8 + 8 \<le> length pk"
      using len plen I t by simp_all
    have slen': "g < length sc" using slen g I t by simp
    have conv': "conversions_defined fl ws (Suc g)"
      using conv g by (intro conversions_defined_mono [OF conv]) simp
    from quantize_group_ok [OF len' plen' slen' conv'] obtain pk' where pk':
      "quantize_group fl ws g (pk, sc) = Inr (pk', sc[g := word_of_int (group_shift fl ws g)])"
      "length pk' = length pk"
      "\<forall>y<length pk. pk' ! y =
           (if g * 8 \<le> y \<and> y < g * 8 + 8 then quantized_byte fl ws y else pk ! y)"
      by blast
    have "?I (Suc g) (pk', sc[g := word_of_int (group_shift fl ws g)])"
      using I pk'(2,3) unfolding t by (auto simp: nth_list_update less_Suc_eq)
    with pk'(1) show "\<exists>t'. quantize_group fl ws g t = Inr t' \<and> ?I (Suc g) t'"
      unfolding t by blast
  qed
  then show ?thesis by auto
qed

lemma quantize_general:
  assumes len: "length ws = K * N" and conv: "conversions_defined fl ws (K * N div 16)"
  shows "\<exists>pk sc. quantize_mxint4 fl ws pk0 sc0 K N = Inr (pk, sc)
     \<and> length pk = K * N div 2 \<and> length sc = K * N div 16
     \<and> (\<forall>y<K * N div 16 * 8. pk ! y = quantized_byte fl ws y)
     \<and> (\<forall>g<K * N div 16. sc ! g = word_of_int (group_shift fl ws g))"
proof -
  let ?G = "K * N div 16"
  let ?p = "resize_vec (K * N div 2) 0 pk0" and ?s = "resize_vec ?G 0 sc0"
  have lp: "length ?p = K * N div 2" and ls: "length ?s = ?G" by (simp_all add: resize_vec_def)
  have a: "?G * 16 \<le> length ws" using len by simp
  have b: "?G * 8 \<le> length ?p" unfolding lp by simp
  have c: "?G \<le> length ?s" unfolding ls by simp
  from quantize_groups_loop [OF a b c conv] obtain pk sc where r:
    "for_loop ?G (quantize_group fl ws) (?p, ?s) = Inr (pk, sc)"
    "length pk = length ?p" "length sc = length ?s"
    "\<forall>y<length ?p. pk ! y = (if y < ?G * 8 then quantized_byte fl ws y else ?p ! y)"
    "\<forall>h<length ?s. sc ! h = (if h < ?G then word_of_int (group_shift fl ws h) else ?s ! h)"
    by blast
  have "quantize_mxint4 fl ws pk0 sc0 K N = Inr (pk, sc)"
    using r(1) by (simp add: quantize_mxint4_def GROUP_SIZE_def)
  moreover have "\<forall>y<?G * 8. pk ! y = quantized_byte fl ws y"
    using r(4) b by auto
  moreover have "\<forall>g<?G. sc ! g = word_of_int (group_shift fl ws g)"
    using r(5) ls by auto
  ultimately show ?thesis using r(2,3) lp ls by auto
qed

lemma c_round_error: "\<bar>real_of_int (c_round y) - y\<bar> \<le> 1 / 2"
proof (cases "0 \<le> y")
  case True
  define r where "r = \<lfloor>y + 1 / 2\<rfloor>"
  have "real_of_int r \<le> y + 1 / 2" "y + 1 / 2 < real_of_int r + 1"
    unfolding r_def by linarith+
  moreover have "real_of_int (c_round y) = real_of_int r"
    using True by (simp add: c_round_def r_def)
  ultimately show ?thesis by linarith
next
  case False
  define r where "r = \<lfloor>- y + 1 / 2\<rfloor>"
  have "real_of_int r \<le> - y + 1 / 2" "- y + 1 / 2 < real_of_int r + 1"
    unfolding r_def by linarith+
  moreover have "real_of_int (c_round y) = - real_of_int r"
    using False by (simp add: c_round_def r_def)
  ultimately show ?thesis by linarith
qed


lemma unat_scale_word:
  assumes "0 \<le> sh" "sh \<le> 3"
  shows "unat (word_of_int sh :: 8 word) = nat sh"
proof -
  have "uint (word_of_int sh :: 8 word) = sh mod 256" by (simp add: uint_word_of_int)
  also have "\<dots> = sh" using assms by simp
  finally show ?thesis by (simp add: unat_eq_nat_uint)
qed

lemma unat_group_scale: "unat (word_of_int (group_shift fl ws g) :: 8 word) = nat (group_shift fl ws g)"
  by (rule unat_scale_word [OF group_shift_range])

lemma scaled_round_stored:
  "scaled_round fl ws x =
     c_round (ws ! x / 2 ^ (2 * unat (word_of_int (group_shift fl ws (x div 16)) :: 8 word)))"
proof -
  have "nat (group_shift fl ws (x div 16) * 2) = 2 * nat (group_shift fl ws (x div 16))"
    using group_shift_range(1) [of fl ws "x div 16"] by (simp add: nat_mult_distrib)
  then show ?thesis by (simp add: scaled_round_def GROUP_SIZE_def unat_group_scale)
qed

lemma sint_quantized_nibble:
  assumes "- 128 \<le> scaled_round fl ws x" "scaled_round fl ws x \<le> 127"
  shows "sint (quantized_nibble fl ws x) = max (- 8) (min 7 (scaled_round fl ws x))"
  unfolding quantized_nibble_def by (rule sint_clamp_4bit [OF assms])

lemma quantized_nibble_range:
  assumes "- 128 \<le> scaled_round fl ws x" "scaled_round fl ws x \<le> 127"
  shows "- 8 \<le> sint (quantized_nibble fl ws x)" "sint (quantized_nibble fl ws x) \<le> 7"
  using sint_quantized_nibble [OF assms] by simp_all

lemma nibble_value_quantized_byte:
  assumes conv: "conversions_defined fl ws G" and y: "y < G * 8"
  shows "nibble_value (quantized_byte fl ws y) False = max (- 8) (min 7 (scaled_round fl ws (2 * y)))"
    and "nibble_value (quantized_byte fl ws y) True = max (- 8) (min 7 (scaled_round fl ws (2 * y + 1)))"
proof -
  have x: "2 * y < G * GROUP_SIZE" "2 * y + 1 < G * GROUP_SIZE" using y by (simp_all add: GROUP_SIZE_def)
  have c0: "- 128 \<le> scaled_round fl ws (2 * y)" "scaled_round fl ws (2 * y) \<le> 127"
    using conv x(1) unfolding conversions_defined_def by blast+
  have c1: "- 128 \<le> scaled_round fl ws (2 * y + 1)" "scaled_round fl ws (2 * y + 1) \<le> 127"
    using conv x(2) unfolding conversions_defined_def by blast+
  note r = quantized_nibble_range [OF c0] quantized_nibble_range [OF c1]
  show "nibble_value (quantized_byte fl ws y) False = max (- 8) (min 7 (scaled_round fl ws (2 * y)))"
    unfolding quantized_byte_def
    by (simp only: nibble_value_pack(1) [OF r] sint_quantized_nibble [OF c0])
  show "nibble_value (quantized_byte fl ws y) True = max (- 8) (min 7 (scaled_round fl ws (2 * y + 1)))"
    unfolding quantized_byte_def
    by (simp only: nibble_value_pack(2) [OF r] sint_quantized_nibble [OF c1])
qed


lemma c_round_small:
  assumes "\<bar>y\<bar> \<le> 127"
  shows "- 128 \<le> c_round y" "c_round y \<le> 127"
proof -
  have "\<bar>real_of_int (c_round y) - y\<bar> \<le> 1 / 2" by (rule c_round_error)
  with assms have "- 128 < real_of_int (c_round y)" "real_of_int (c_round y) < 128" by linarith+
  then show "- 128 \<le> c_round y" "c_round y \<le> 127" by linarith+
qed

lemma conversions_defined_small:
  assumes "\<forall>x<G * 16. \<bar>ws ! x\<bar> \<le> 127"
  shows "conversions_defined fl ws G"
  unfolding conversions_defined_def GROUP_SIZE_def
proof (intro allI impI)
  fix x assume x: "x < G * 16"
  let ?d = "(2::real) ^ nat (group_shift fl ws (x div 16) * 2)"
  have d: "1 \<le> ?d" by simp
  have "\<bar>ws ! x / ?d\<bar> = \<bar>ws ! x\<bar> / ?d" by simp
  also have "\<dots> \<le> \<bar>ws ! x\<bar> / 1" using d by (intro divide_left_mono) simp_all
  finally have "\<bar>ws ! x / ?d\<bar> \<le> 127" using assms x by fastforce
  then show "- 128 \<le> scaled_round fl ws x \<and> scaled_round fl ws x \<le> 127"
    unfolding scaled_round_def GROUP_SIZE_def by (intro conjI c_round_small)
qed




lemma half_step_powr: "2 powr (2 * real s - 1) = 2 ^ (2 * s) / 2"
proof -
  have "2 powr (2 * real s - 1) = 2 powr (real (2 * s)) / 2 powr 1"
    by (simp add: powr_diff)
  also have "\<dots> = 2 ^ (2 * s) / 2" by (simp only: powr_realpow [of 2, simplified] powr_one)
  finally show ?thesis .
qed

lemma scaled_error:
  fixes w d :: real
  assumes "0 < d"
  shows "\<bar>real_of_int (c_round (w / d)) * d - w\<bar> \<le> d / 2"
proof -
  have "\<bar>real_of_int (c_round (w / d)) - w / d\<bar> \<le> 1 / 2" by (rule c_round_error)
  then have "\<bar>real_of_int (c_round (w / d)) - w / d\<bar> * d \<le> 1 / 2 * d"
    using assms by (intro mult_right_mono) simp_all
  moreover have "\<bar>real_of_int (c_round (w / d)) - w / d\<bar> * d
     = \<bar>real_of_int (c_round (w / d)) * d - w\<bar>"
  proof -
    have "\<bar>real_of_int (c_round (w / d)) - w / d\<bar> * d
       = \<bar>(real_of_int (c_round (w / d)) - w / d) * d\<bar>"
      using assms by (simp add: abs_mult)
    also have "(real_of_int (c_round (w / d)) - w / d) * d = real_of_int (c_round (w / d)) * d - w"
      using assms by (simp add: left_diff_distrib)
    finally show ?thesis .
  qed
  ultimately show ?thesis by simp
qed

lemma stored_nibble:
  assumes conv: "conversions_defined fl ws G" and x: "x < G * 16"
  shows "nibble_value (quantized_byte fl ws (x div 2)) (odd x) =
     max (- 8) (min 7 (scaled_round fl ws x))"
proof -
  have y: "x div 2 < G * 8" using x by simp
  show ?thesis
  proof (cases "odd x")
    case True
    then have "2 * (x div 2) + 1 = x" by (simp add: odd_two_times_div_two_succ)
    then show ?thesis using nibble_value_quantized_byte(2) [OF conv y] True by simp
  next
    case False
    then have "2 * (x div 2) = x" by simp
    then show ?thesis using nibble_value_quantized_byte(1) [OF conv y] False by simp
  qed
qed

text \<open>
  C4 (as amended). For every weight \<open>w\<close> of every group whose stored scale is at most 2
  and whose scaled, rounded value lies in \<open>[-8, 7]\<close> (no saturation), decoding the
  stored nibble with the stored scale gives a value within \<open>2^(2 * shift - 1)\<close> of \<open>w\<close>.
\<close>

theorem quantize_roundtrip_bound:
  assumes "length weights_fp32 = K * N" "GROUP_SIZE dvd K * N"
    and "conversions_defined floor_log2 weights_fp32 (K * N div GROUP_SIZE)"
    and "x < K * N"
  shows "\<exists>weights_packed' scales'.
     quantize_mxint4 floor_log2 weights_fp32 weights_packed scales K N = Inr (weights_packed', scales') \<and>
     (unat (scales' ! (x div GROUP_SIZE)) \<le> 2 \<and>
      - 8 \<le> c_round (weights_fp32 ! x / 2 ^ (2 * unat (scales' ! (x div GROUP_SIZE)))) \<and>
      c_round (weights_fp32 ! x / 2 ^ (2 * unat (scales' ! (x div GROUP_SIZE)))) \<le> 7 \<longrightarrow>
      \<bar>real_of_int (sint (unpack_dequantize_weight (weights_packed' ! (x div 2)) (odd x)
                            (scales' ! (x div GROUP_SIZE)))) - weights_fp32 ! x\<bar>
        \<le> 2 powr (2 * real (unat (scales' ! (x div GROUP_SIZE))) - 1))"
proof -
  let ?G = "K * N div 16"
  have dv: "16 dvd K * N" and conv: "conversions_defined floor_log2 weights_fp32 ?G"
    using assms by (simp_all add: GROUP_SIZE_def)
  have G16: "?G * 16 = K * N" using dv by simp
  have xg: "x < ?G * 16" using assms(4) G16 by simp
  then have g: "x div 16 < ?G" and y: "x div 2 < ?G * 8" by simp_all
  from quantize_general [OF assms(1) conv, of weights_packed scales] obtain pk sc where r:
    "quantize_mxint4 floor_log2 weights_fp32 weights_packed scales K N = Inr (pk, sc)"
    "\<forall>y<?G * 8. pk ! y = quantized_byte floor_log2 weights_fp32 y"
    "\<forall>g<?G. sc ! g = word_of_int (group_shift floor_log2 weights_fp32 g)"
    by blast
  let ?s = "unat (sc ! (x div 16))"
  let ?q = "c_round (weights_fp32 ! x / 2 ^ (2 * ?s))"
  have sc: "sc ! (x div 16) = word_of_int (group_shift floor_log2 weights_fp32 (x div 16))"
    using r(3) g by blast
  have pk: "pk ! (x div 2) = quantized_byte floor_log2 weights_fp32 (x div 2)"
    using r(2) y by blast
  have q: "scaled_round floor_log2 weights_fp32 x = ?q"
    unfolding sc by (rule scaled_round_stored)
  have "\<bar>real_of_int (sint (unpack_dequantize_weight (pk ! (x div 2)) (odd x) (sc ! (x div 16))))
          - weights_fp32 ! x\<bar> \<le> 2 powr (2 * real ?s - 1)"
    if s2: "?s \<le> 2" and unsat: "- 8 \<le> ?q" "?q \<le> 7"
  proof -
    have m: "?s mod 4 = ?s" using s2 by simp
    have "sint (unpack_dequantize_weight (pk ! (x div 2)) (odd x) (sc ! (x div 16)))
        = nibble_value (pk ! (x div 2)) (odd x) * 4 ^ ?s"
      using sint_unpack_dequantize_weight_exact [of "sc ! (x div 16)" "pk ! (x div 2)" "odd x"] s2 m
      by simp
    also have "nibble_value (pk ! (x div 2)) (odd x) = ?q"
      unfolding pk stored_nibble [OF conv xg] q using unsat by simp
    finally have "real_of_int (sint (unpack_dequantize_weight (pk ! (x div 2)) (odd x) (sc ! (x div 16))))
        = real_of_int ?q * 2 ^ (2 * ?s)"
      by (simp add: power_mult)
    moreover have "\<bar>real_of_int ?q * 2 ^ (2 * ?s) - weights_fp32 ! x\<bar> \<le> 2 ^ (2 * ?s) / 2"
      by (rule scaled_error) simp
    ultimately show ?thesis by (simp only: half_step_powr)
  qed
  with r(1) show ?thesis by (auto simp: GROUP_SIZE_def)
qed

theorem quantize_roundtrip_bound_witness:
  "length (replicate 16 (1::real)) = 1 * 16 \<and> GROUP_SIZE dvd (1::nat) * 16
   \<and> conversions_defined exact_floor_log2 (replicate 16 1) (1 * 16 div GROUP_SIZE)
   \<and> (0::nat) < 1 * 16
   \<and> (\<exists>weights_packed' scales'.
     quantize_mxint4 exact_floor_log2 (replicate 16 1) [] [] 1 16 = Inr (weights_packed', scales') \<and>
     (unat (scales' ! (0 div GROUP_SIZE)) \<le> 2 \<and>
      - 8 \<le> c_round (replicate 16 1 ! 0 / 2 ^ (2 * unat (scales' ! (0 div GROUP_SIZE)))) \<and>
      c_round (replicate 16 1 ! 0 / 2 ^ (2 * unat (scales' ! (0 div GROUP_SIZE)))) \<le> 7 \<longrightarrow>
      \<bar>real_of_int (sint (unpack_dequantize_weight (weights_packed' ! (0 div 2)) (odd (0::nat))
                            (scales' ! (0 div GROUP_SIZE)))) - replicate 16 1 ! 0\<bar>
        \<le> 2 powr (2 * real (unat (scales' ! (0 div GROUP_SIZE))) - 1)))"
proof -
  have h: "length (replicate 16 (1::real)) = 1 * 16" "GROUP_SIZE dvd (1::nat) * 16"
    by (simp_all add: GROUP_SIZE_def)
  have c: "conversions_defined exact_floor_log2 (replicate 16 1) (1 * 16 div GROUP_SIZE)"
    by (rule conversions_defined_small) (simp add: GROUP_SIZE_def)
  have x: "(0::nat) < 1 * 16" by simp
  from quantize_roundtrip_bound [OF h c x, of "[]" "[]"] h c x show ?thesis by blast
qed

lemma group_max_abs_replicate_15: "group_max_abs (replicate 16 15) 0 = 15"
proof -
  have "(\<lambda>i. \<bar>replicate 16 (15::real) ! (0 * 16 + i)\<bar>) ` {..<16::nat} = {15}"
    by (auto simp: image_iff intro!: exI [of _ "0::nat"])
  then show ?thesis by (simp add: group_max_abs_def GROUP_SIZE_def)
qed

lemma exact_floor_log2_15: "exact_floor_log2 15 = 3"
proof -
  have "\<lfloor>log 2 (15::real)\<rfloor> = 3 \<longleftrightarrow> 2 powr (3::int) \<le> (15::real) \<and> (15::real) < 2 powr ((3::int) + 1)"
    by (rule floor_log_eq_powr_iff) simp_all
  then show ?thesis by (simp add: exact_floor_log2_def)
qed

lemma group_shift_replicate_15: "group_shift exact_floor_log2 (replicate 16 15) 0 = 0"
  by (simp add: group_shift_def group_max_abs_replicate_15 exact_floor_log2_15)

lemma c_round_15: "c_round 15 = 15"
  by (simp add: c_round_def)

lemma scaled_round_replicate_15:
  assumes "x < 16"
  shows "scaled_round exact_floor_log2 (replicate 16 15) x = 15"
  using assms by (simp add: scaled_round_def GROUP_SIZE_def group_shift_replicate_15 c_round_15)

lemma quantized_byte_replicate_15: "quantized_byte exact_floor_log2 (replicate 16 15) 0 = 0x77"
  by (simp add: quantized_byte_def quantized_nibble_def scaled_round_replicate_15
      clamp_4bit_def pack_nibbles_def)

text \<open>
  C4 (the claim fails where the codec saturates). A group of sixteen weights 15.0 has
  \<open>max_abs = 15\<close>, \<open>floor(log2(15)) - 3 = 0\<close>, hence shift 0 and scale step 1; each weight
  rounds to 15 and is clamped to 7. The decoded weight is 7: the error is 8, not at most
  \<open>2^(2 * 0 - 1) = 1/2\<close>.
\<close>

theorem quantize_roundtrip_saturates:
  "\<exists>weights_packed' scales'.
     quantize_mxint4 exact_floor_log2 (replicate 16 15) [] [] 1 16 = Inr (weights_packed', scales') \<and>
     unat (scales' ! 0) = 0 \<and>
     sint (unpack_dequantize_weight (weights_packed' ! 0) False (scales' ! 0)) = 7 \<and>
     \<not> \<bar>real_of_int (sint (unpack_dequantize_weight (weights_packed' ! 0) False (scales' ! 0)))
          - replicate 16 15 ! 0\<bar> \<le> 2 powr (2 * real (unat (scales' ! 0)) - 1)"
proof -
  have l: "length (replicate 16 (15::real)) = 1 * 16" by simp
  have c: "conversions_defined exact_floor_log2 (replicate 16 15) (1 * 16 div 16)"
    by (rule conversions_defined_small) simp
  from quantize_general [OF l c, of "[]" "[]"] obtain pk sc where r:
    "quantize_mxint4 exact_floor_log2 (replicate 16 15) [] [] 1 16 = Inr (pk, sc)"
    "\<forall>y<1 * 16 div 16 * 8. pk ! y = quantized_byte exact_floor_log2 (replicate 16 15) y"
    "\<forall>g<1 * 16 div 16. sc ! g = word_of_int (group_shift exact_floor_log2 (replicate 16 15) g)"
    by blast
  have pk: "pk ! 0 = 0x77" using r(2) by (simp add: quantized_byte_replicate_15)
  have sc: "sc ! 0 = 0" using r(3) by (simp add: group_shift_replicate_15)
  have d: "sint (unpack_dequantize_weight 0x77 False 0) = 7"
    by (simp add: unpack_dequantize_weight_def)
  have "(signed (unpack_dequantize_weight 0x77 False 0) :: real)
      = real_of_int (sint (unpack_dequantize_weight 0x77 False 0))"
    by (rule of_int_sint [symmetric])
  also have "\<dots> = 7" by (simp only: d of_int_numeral)
  finally have d': "(signed (unpack_dequantize_weight 0x77 False 0) :: real) = 7" .
  have p: "(2::real) powr (- 1) = 1 / 2" by (simp add: powr_neg_one)
  show ?thesis
    using r(1) by (simp add: pk sc d d' p)
qed

subsection \<open>The single-precision logarithm just below 16\<close>








subsection \<open>The scale of a group\<close>






end
